theory Spec2Isabelle
  imports Complex_Main "HOL-Library.Log_Nat"
begin

section \<open>The data generator of \<open>scripts/fill_db.js\<close>\<close>

text \<open>
  The script fills four tables through a connection pool. Each stage is a loop
  \<^verbatim>\<open>for (let i = 0; i < TOTAL; i += BATCH_SIZE)\<close> that builds the text of one multi-row
  \<^verbatim>\<open>INSERT\<close> in an inner loop \<^verbatim>\<open>for (let j = 0; j < BATCH_SIZE; j++)\<close> and awaits
  \<^verbatim>\<open>pool.query\<close> on it.

  The model keeps the statement structured instead of as text: the table, the column
  list and one list of SQL values per row. The number of rows of a statement is the
  number of elements pushed on \<^verbatim>\<open>values\<close>.
\<close>

subsection \<open>Statements\<close>

datatype sql_value =
    SqlText string       \<comment> \<open>a quoted literal \<^verbatim>\<open>'...'\<close>\<close>
  | SqlInt int           \<comment> \<open>an integer literal\<close>
  | SqlFixed2 int        \<comment> \<open>the result of \<^verbatim>\<open>toFixed(2)\<close>, counted in hundredths\<close>
  | SqlNow               \<comment> \<open>the SQL expression \<^verbatim>\<open>NOW()\<close>\<close>
  | SqlTimestamp int     \<comment> \<open>\<^verbatim>\<open>'${date.toISOString()}'\<close>, as milliseconds since the epoch\<close>

type_synonym row = "sql_value list"

record statement =
  st_table :: string
  st_columns :: "string list"
  st_values :: "row list"

datatype error = DbError string

subsection \<open>The process and its surroundings\<close>

text \<open>
  The constants at the head of the script are the fields of a configuration, so that
  the loops can be studied at other totals and batch sizes as well.
\<close>

record config =
  BATCH_SIZE :: nat
  TOTAL_USERS :: nat
  TOTAL_PRODUCTS :: nat
  TOTAL_ORDERS :: nat

definition reference :: config where
  "reference = \<lparr>BATCH_SIZE = 1000, TOTAL_USERS = 100000, TOTAL_PRODUCTS = 10000,
                 TOTAL_ORDERS = 2500000\<rparr>"

text \<open>
  What the script reads from outside: the successive results of \<^verbatim>\<open>Math.random()\<close>
  (a double is the rational number it stands for), the successive results of \<^verbatim>\<open>Date.now()\<close>,
  the value of \<^verbatim>\<open>new Date(2023, 0, 1).getTime()\<close> in the time zone of the process, and
  the answer of the backend to the \<open>n\<close>-th statement the process submits: \<open>None\<close> when
  the statement is executed, \<open>Some e\<close> when \<^verbatim>\<open>pool.query\<close> rejects with \<open>e\<close>.

  JavaScript promises that \<^verbatim>\<open>Math.random()\<close> is a double with
  \<open>0 \<le> Math.random() < 1\<close> and that a clock reading is a valid time value.
  \<^verbatim>\<open>toISOString\<close> throws on a date outside the range of time values only, which
  a date between two valid ones is not; the model has no such branch.
\<close>

record env =
  random :: "nat \<Rightarrow> rat"
  clock :: "nat \<Rightarrow> int"
  start_ms :: int
  db_error :: "nat \<Rightarrow> statement \<Rightarrow> error option"

datatype event =
    Issue statement      \<comment> \<open>\<^verbatim>\<open>pool.query(query)\<close> is called\<close>
  | Resolve              \<comment> \<open>its promise is fulfilled\<close>
  | Reject error         \<comment> \<open>its promise is rejected\<close>
  | PoolEnd              \<comment> \<open>\<^verbatim>\<open>pool.end()\<close> is called\<close>

text \<open>
  The state: how many random numbers and clock readings were consumed, the tables of
  the backend (an executed \<^verbatim>\<open>INSERT\<close> appends its rows to its table) and the log of
  what the process did with the pool.
\<close>

record world =
  random_calls :: nat
  now_calls :: nat
  db :: "string \<Rightarrow> row list"
  log :: "event list"

fun submitted :: "event list \<Rightarrow> statement list" where
  "submitted [] = []"
| "submitted (Issue q # evs) = q # submitted evs"
| "submitted (ev # evs) = submitted evs"

subsection \<open>Arithmetic on doubles\<close>

text \<open>
  A JavaScript number is a double, and \<^verbatim>\<open>*\<close>, \<^verbatim>\<open>+\<close> and \<^verbatim>\<open>-\<close> round the exact
  result to the nearest double, to the one with an even last bit of two nearest.
  \<open>fl x\<close> is that double: \<open>\<bar>x\<bar>\<close> is counted in units of \<open>1 / 2 ^ 1074\<close>, the least
  positive double, all but the leading 53 bits of that count are rounded off, and the
  sign is put back. The numbers of the script are far from \<open>2 ^ 1024\<close>, where a
  double overflows; \<open>fl\<close> has no overflow.
\<close>

definition round_even :: "rat \<Rightarrow> int" where
  "round_even y =
     (let f = \<lfloor>y\<rfloor>; d = y - of_int f
      in if d < 1 / 2 then f else if 1 / 2 < d then f + 1 else if even f then f else f + 1)"

definition scale_bits :: nat where
  "scale_bits = 1074"

definition fl :: "rat \<Rightarrow> rat" where
  "fl x =
     (let a = \<bar>x\<bar>;
          s = floorlog 2 (nat \<lfloor>a * 2 ^ scale_bits\<rfloor>) - 53;
          u = 2 ^ s / 2 ^ scale_bits
      in sgn x * (of_int (round_even (a / u)) * u))"

subsection \<open>Random numbers and dates\<close>

definition Math_random :: "env \<Rightarrow> world \<Rightarrow> rat \<times> world" where
  "Math_random e w = (random e (random_calls w), w\<lparr>random_calls := Suc (random_calls w)\<rparr>)"

definition Date_now :: "env \<Rightarrow> world \<Rightarrow> int \<times> world" where
  "Date_now e w = (clock e (now_calls w), w\<lparr>now_calls := Suc (now_calls w)\<rparr>)"

text \<open>The \<^verbatim>\<open>Date\<close> constructor cuts the fraction of its argument off, towards zero.\<close>

definition TimeClip :: "rat \<Rightarrow> int" where
  "TimeClip x = (if 0 \<le> x then \<lfloor>x\<rfloor> else \<lceil>x\<rceil>)"

text \<open>
  The time value of \<^verbatim>\<open>new Date(start + r * (end - start))\<close>: the difference, the
  product and the sum are doubles.
\<close>

definition sample_date :: "int \<Rightarrow> int \<Rightarrow> rat \<Rightarrow> int" where
  "sample_date start end r =
     TimeClip (fl (of_int start + fl (r * fl (of_int end - of_int start))))"

definition randomDate :: "env \<Rightarrow> world \<Rightarrow> int \<times> world" where
  "randomDate e w =
     (let start = start_ms e;
          (end, w1) = Date_now e w;
          (r, w2) = Math_random e w1
      in (sample_date start end r, w2))"

text \<open>
  \<^verbatim>\<open>Math.floor(Math.random() * n) + 1\<close>, for the random number \<open>r\<close>: the floor of
  the double product. The floor is a whole number below \<open>2 ^ 53\<close>, so that adding 1
  is exact.
\<close>

definition random_id :: "nat \<Rightarrow> rat \<Rightarrow> int" where
  "random_id n r = \<lfloor>fl (r * of_nat n)\<rfloor> + 1"

text \<open>
  \<^verbatim>\<open>x.toFixed(2)\<close> of a double \<open>x\<close>, as a number of hundredths: the nearest one to
  the exact value of \<open>x\<close>, the larger one of two nearest; a negative \<open>x\<close> is negated
  first and gets its sign back. The price is \<^verbatim>\<open>(Math.random() * 500).toFixed(2)\<close>.
\<close>

definition toFixed2 :: "rat \<Rightarrow> int" where
  "toFixed2 x = (if 0 \<le> x then \<lfloor>x * 100 + 1 / 2\<rfloor> else - \<lfloor>- x * 100 + 1 / 2\<rfloor>)"

definition random_price :: "rat \<Rightarrow> sql_value" where
  "random_price r = SqlFixed2 (toFixed2 (fl (r * 500)))"

text \<open>A number inside a template literal: its decimal digits.\<close>

definition digit :: "nat \<Rightarrow> char" where
  "digit d = ''0123456789'' ! d"

function string_of_nat :: "nat \<Rightarrow> string" where
  "string_of_nat n =
     (if n < 10 then [digit n] else string_of_nat (n div 10) @ [digit (n mod 10)])"
  by pat_completeness auto

termination
  by (relation "measure id") auto

declare string_of_nat.simps [simp del]

subsection \<open>The pool\<close>

definition pool_query :: "env \<Rightarrow> statement \<Rightarrow> world \<Rightarrow> (error + unit) \<times> world" where
  "pool_query e q w =
     (case db_error e (length (submitted (log w))) q of
        Some err \<Rightarrow> (Inl err, w\<lparr>log := log w @ [Issue q, Reject err]\<rparr>)
      | None \<Rightarrow>
          (Inr (), w\<lparr>db := (db w)(st_table q := db w (st_table q) @ st_values q),
                      log := log w @ [Issue q, Resolve]\<rparr>))"

definition pool_end :: "world \<Rightarrow> (error + unit) \<times> world" where
  "pool_end w = (Inr (), w\<lparr>log := log w @ [PoolEnd]\<rparr>)"

subsection \<open>The loops\<close>

text \<open>
  The inner loop \<^verbatim>\<open>for (let j = 0; j < BATCH_SIZE; j++) values.push(...)\<close>; \<open>mk j\<close> is
  its body, which may consume random numbers and clock readings.
\<close>

function values_loop ::
  "(nat \<Rightarrow> world \<Rightarrow> row \<times> world) \<Rightarrow> nat \<Rightarrow> nat \<Rightarrow> row list \<Rightarrow> world \<Rightarrow> row list \<times> world"
where
  "values_loop mk bs j vals w =
     (if j < bs then
        (case mk j w of (v, w1) \<Rightarrow> values_loop mk bs (Suc j) (vals @ [v]) w1)
      else (vals, w))"
  by pat_completeness auto

termination
  by (relation "measure (\<lambda>(mk, bs, j, vals, w). bs - j)") auto

declare values_loop.simps [simp del]

text \<open>
  The outer loop \<^verbatim>\<open>for (let i = 0; i < TOTAL; i += BATCH_SIZE)\<close>; \<open>build i\<close> is the
  construction of \<^verbatim>\<open>query\<close>. A rejected \<^verbatim>\<open>await pool.query(query)\<close> throws out of the
  loop. With a batch size of 0 the loop never ends: the result is then \<open>None\<close>.
\<close>

partial_function (option) batch_loop ::
  "(nat \<Rightarrow> world \<Rightarrow> statement \<times> world) \<Rightarrow> env \<Rightarrow> nat \<Rightarrow> nat \<Rightarrow> nat \<Rightarrow> world
     \<Rightarrow> ((error + unit) \<times> world) option"
where
  "batch_loop build e tot bs i w =
     (if i < tot then
        (case build i w of (q, w1) \<Rightarrow>
           (case pool_query e q w1 of
              (Inl err, w2) \<Rightarrow> Some (Inl err, w2)
            | (Inr u, w2) \<Rightarrow> batch_loop build e tot bs (i + bs) w2))
      else Some (Inr (), w))"

subsection \<open>The four stages\<close>

definition user_value :: "nat \<Rightarrow> nat \<Rightarrow> row" where
  "user_value i j = [SqlText (''user'' @ string_of_nat (i + j + 1) @ ''@gmail.com''), SqlNow]"

definition users_query :: "config \<Rightarrow> nat \<Rightarrow> world \<Rightarrow> statement \<times> world" where
  "users_query c i w =
     (case values_loop (\<lambda>j w. (user_value i j, w)) (BATCH_SIZE c) 0 [] w of
        (values, w1) \<Rightarrow>
          (\<lparr>st_table = ''users'', st_columns = [''email'', ''created_at''],
            st_values = values\<rparr>, w1))"

definition insert_users :: "config \<Rightarrow> env \<Rightarrow> world \<Rightarrow> ((error + unit) \<times> world) option" where
  "insert_users c e w = batch_loop (users_query c) e (TOTAL_USERS c) (BATCH_SIZE c) 0 w"

definition product_value :: "env \<Rightarrow> nat \<Rightarrow> nat \<Rightarrow> world \<Rightarrow> row \<times> world" where
  "product_value e i j w =
     (let name = ''Product '' @ string_of_nat (i + j + 1);
          (r, w1) = Math_random e w
      in ([SqlText name, random_price r], w1))"

definition products_query :: "config \<Rightarrow> env \<Rightarrow> nat \<Rightarrow> world \<Rightarrow> statement \<times> world" where
  "products_query c e i w =
     (case values_loop (product_value e i) (BATCH_SIZE c) 0 [] w of
        (values, w1) \<Rightarrow>
          (\<lparr>st_table = ''products'', st_columns = [''name'', ''price''],
            st_values = values\<rparr>, w1))"

definition insert_products :: "config \<Rightarrow> env \<Rightarrow> world \<Rightarrow> ((error + unit) \<times> world) option" where
  "insert_products c e w =
     batch_loop (products_query c e) e (TOTAL_PRODUCTS c) (BATCH_SIZE c) 0 w"

definition order_value :: "config \<Rightarrow> env \<Rightarrow> nat \<Rightarrow> world \<Rightarrow> row \<times> world" where
  "order_value c e j w =
     (let (r, w1) = Math_random e w;
          user_id = random_id (TOTAL_USERS c) r;
          (created_at, w2) = randomDate e w1
      in ([SqlInt user_id, SqlTimestamp created_at, SqlText ''completed''], w2))"

definition orders_query :: "config \<Rightarrow> env \<Rightarrow> nat \<Rightarrow> world \<Rightarrow> statement \<times> world" where
  "orders_query c e i w =
     (case values_loop (order_value c e) (BATCH_SIZE c) 0 [] w of
        (values, w1) \<Rightarrow>
          (\<lparr>st_table = ''orders'', st_columns = [''user_id'', ''created_at'', ''status''],
            st_values = values\<rparr>, w1))"

definition insert_orders :: "config \<Rightarrow> env \<Rightarrow> world \<Rightarrow> ((error + unit) \<times> world) option" where
  "insert_orders c e w =
     batch_loop (orders_query c e) e (TOTAL_ORDERS c) (BATCH_SIZE c) 0 w"

definition orderitem_value :: "config \<Rightarrow> env \<Rightarrow> nat \<Rightarrow> world \<Rightarrow> row \<times> world" where
  "orderitem_value c e j w =
     (let (r1, w1) = Math_random e w;
          order_id = random_id (TOTAL_ORDERS c) r1;
          (r2, w2) = Math_random e w1;
          product_id = random_id (TOTAL_PRODUCTS c) r2;
          (r3, w3) = Math_random e w2;
          quantity = random_id 10 r3;
          (r4, w4) = Math_random e w3
      in ([SqlInt order_id, SqlInt product_id, SqlInt quantity, random_price r4], w4))"

definition orderitems_query :: "config \<Rightarrow> env \<Rightarrow> nat \<Rightarrow> world \<Rightarrow> statement \<times> world" where
  "orderitems_query c e i w =
     (case values_loop (orderitem_value c e) (BATCH_SIZE c) 0 [] w of
        (values, w1) \<Rightarrow>
          (\<lparr>st_table = ''orderitems'',
            st_columns = [''order_id'', ''product_id'', ''quantity'', ''price''],
            st_values = values\<rparr>, w1))"

definition TOTAL_ITEMS :: "config \<Rightarrow> nat" where
  "TOTAL_ITEMS c = TOTAL_ORDERS c * 3"

definition insert_orderitems :: "config \<Rightarrow> env \<Rightarrow> world \<Rightarrow> ((error + unit) \<times> world) option"
where
  "insert_orderitems c e w =
     batch_loop (orderitems_query c e) e (TOTAL_ITEMS c) (BATCH_SIZE c) 0 w"

subsection \<open>The run\<close>

text \<open>
  \<^verbatim>\<open>await f(); rest\<close>: when \<open>f\<close> never returns nothing follows, when it throws the
  error leaves the enclosing function, otherwise \<open>rest\<close> goes on in the state reached.
\<close>

definition await_then ::
  "((error + unit) \<times> world) option \<Rightarrow> (world \<Rightarrow> ((error + unit) \<times> world) option)
     \<Rightarrow> ((error + unit) \<times> world) option"
where
  "await_then r rest =
     (case r of
        None \<Rightarrow> None
      | Some (Inl err, w) \<Rightarrow> Some (Inl err, w)
      | Some (Inr u, w) \<Rightarrow> rest w)"

definition run :: "config \<Rightarrow> env \<Rightarrow> world \<Rightarrow> ((error + unit) \<times> world) option" where
  "run c e w =
     await_then (insert_users c e w) (\<lambda>w1.
     await_then (insert_products c e w1) (\<lambda>w2.
     await_then (insert_orders c e w2) (\<lambda>w3.
     await_then (insert_orderitems c e w3) (\<lambda>w4.
     Some (pool_end w4)))))"

section \<open>Notions for the properties\<close>

text \<open>
  \<open>ceil_div n b\<close> is \<open>n / b\<close> rounded up, for \<open>b > 0\<close>: the number of times the
  outer loop runs its body. \<open>batch_starts\<close> lists the values \<open>i\<close> has there.
\<close>

definition ceil_div :: "nat \<Rightarrow> nat \<Rightarrow> nat" where
  "ceil_div n b = (n + b - 1) div b"

definition batch_starts :: "nat \<Rightarrow> nat \<Rightarrow> nat \<Rightarrow> nat list" where
  "batch_starts tot bs i = map (\<lambda>k. i + k * bs) [0..<ceil_div (tot - i) bs]"

text \<open>
  The outer loop, unrolled: a list of statement constructions, each followed by its
  \<^verbatim>\<open>await pool.query\<close>; the first rejection ends it.
\<close>

fun run_jobs ::
  "env \<Rightarrow> (world \<Rightarrow> statement \<times> world) list \<Rightarrow> world \<Rightarrow> (error + unit) \<times> world"
where
  "run_jobs e [] w = (Inr (), w)"
| "run_jobs e (job # jobs) w =
     (case job w of (q, w1) \<Rightarrow>
        (case pool_query e q w1 of
           (Inl err, w2) \<Rightarrow> (Inl err, w2)
         | (Inr u, w2) \<Rightarrow> run_jobs e jobs w2))"

text \<open>
  The events of statements that are issued and executed one after the other, and what
  an executed statement does to the tables.
\<close>

fun ok_events :: "statement list \<Rightarrow> event list" where
  "ok_events [] = []"
| "ok_events (q # qs) = Issue q # Resolve # ok_events qs"

definition apply_insert :: "statement \<Rightarrow> (string \<Rightarrow> row list) \<Rightarrow> (string \<Rightarrow> row list)" where
  "apply_insert q d = d(st_table q := d (st_table q) @ st_values q)"

text \<open>The statement that the users stage builds at \<open>i\<close>.\<close>

definition users_statement :: "config \<Rightarrow> nat \<Rightarrow> statement" where
  "users_statement c i =
     \<lparr>st_table = ''users'', st_columns = [''email'', ''created_at''],
      st_values = map (user_value i) [0..<BATCH_SIZE c]\<rparr>"

text \<open>
  What JavaScript promises of \<^verbatim>\<open>Math.random()\<close>: a double from 0 up to, not
  including, 1. And a clock that stays between the start date and a time \<open>T\<close>, where
  the start date is not before 1970 and \<open>T\<close> is a time value a \<^verbatim>\<open>Date\<close> can hold.
\<close>

definition unit_random :: "env \<Rightarrow> bool" where
  "unit_random e = (\<forall>n. fl (random e n) = random e n \<and> 0 \<le> random e n \<and> random e n < 1)"

definition clock_between :: "env \<Rightarrow> int \<Rightarrow> bool" where
  "clock_between e T =
     (0 \<le> start_ms e \<and> T \<le> 8640000000000000
      \<and> (\<forall>n. start_ms e \<le> clock e n \<and> clock e n \<le> T))"

text \<open>
  The row of an order made from the random numbers \<open>rc\<close> and \<open>rc + 1\<close> and the
  clock reading \<open>nc\<close>, the row of an order item made from the random numbers
  \<open>rc\<close> to \<open>rc + 3\<close>, and the statements made of such rows from \<open>rc\<close> and \<open>nc\<close> on.
\<close>

definition order_row :: "config \<Rightarrow> env \<Rightarrow> nat \<Rightarrow> nat \<Rightarrow> row" where
  "order_row c e rc nc =
     [SqlInt (random_id (TOTAL_USERS c) (random e rc)),
      SqlTimestamp (sample_date (start_ms e) (clock e nc) (random e (Suc rc))),
      SqlText ''completed'']"

definition orders_statement :: "config \<Rightarrow> env \<Rightarrow> nat \<Rightarrow> nat \<Rightarrow> statement" where
  "orders_statement c e rc nc =
     \<lparr>st_table = ''orders'', st_columns = [''user_id'', ''created_at'', ''status''],
      st_values = map (\<lambda>j. order_row c e (rc + 2 * j) (nc + j)) [0..<BATCH_SIZE c]\<rparr>"

definition orderitem_row :: "config \<Rightarrow> env \<Rightarrow> nat \<Rightarrow> row" where
  "orderitem_row c e rc =
     [SqlInt (random_id (TOTAL_ORDERS c) (random e rc)),
      SqlInt (random_id (TOTAL_PRODUCTS c) (random e (rc + 1))),
      SqlInt (random_id 10 (random e (rc + 2))),
      random_price (random e (rc + 3))]"

definition orderitems_statement :: "config \<Rightarrow> env \<Rightarrow> nat \<Rightarrow> statement" where
  "orderitems_statement c e rc =
     \<lparr>st_table = ''orderitems'',
      st_columns = [''order_id'', ''product_id'', ''quantity'', ''price''],
      st_values = map (\<lambda>j. orderitem_row c e (rc + 4 * j)) [0..<BATCH_SIZE c]\<rparr>"

text \<open>
  The rows that the claims expect of the orders and the order-items stages. Prices are
  in hundredths: 50000 is 500.00.
\<close>

fun order_row_ok :: "config \<Rightarrow> env \<Rightarrow> int \<Rightarrow> row \<Rightarrow> bool" where
  "order_row_ok c e T [SqlInt user_id, SqlTimestamp created_at, SqlText status] =
     (1 \<le> user_id \<and> user_id \<le> int (TOTAL_USERS c) \<and> status = ''completed''
      \<and> start_ms e \<le> created_at \<and> created_at \<le> T)"
| "order_row_ok c e T r = False"

fun orderitem_row_ok :: "config \<Rightarrow> row \<Rightarrow> bool" where
  "orderitem_row_ok c [SqlInt order_id, SqlInt product_id, SqlInt quantity, SqlFixed2 price] =
     (1 \<le> order_id \<and> order_id \<le> int (TOTAL_ORDERS c)
      \<and> 1 \<le> product_id \<and> product_id \<le> int (TOTAL_PRODUCTS c)
      \<and> 1 \<le> quantity \<and> quantity \<le> 10
      \<and> 0 \<le> price \<and> price \<le> 50000)"
| "orderitem_row_ok c r = False"

text \<open>
  The tables of the statements of a whole run, in order, and the constructions of
  these statements; \<open>finish\<close> is the end of \<open>run\<close> after the four stages.
\<close>

definition plan :: "config \<Rightarrow> string list" where
  "plan c =
     replicate (ceil_div (TOTAL_USERS c) (BATCH_SIZE c)) ''users'' @
     replicate (ceil_div (TOTAL_PRODUCTS c) (BATCH_SIZE c)) ''products'' @
     replicate (ceil_div (TOTAL_ORDERS c) (BATCH_SIZE c)) ''orders'' @
     replicate (ceil_div (TOTAL_ITEMS c) (BATCH_SIZE c)) ''orderitems''"

definition all_jobs :: "config \<Rightarrow> env \<Rightarrow> (world \<Rightarrow> statement \<times> world) list" where
  "all_jobs c e =
     map (users_query c) (batch_starts (TOTAL_USERS c) (BATCH_SIZE c) 0) @
     map (products_query c e) (batch_starts (TOTAL_PRODUCTS c) (BATCH_SIZE c) 0) @
     map (orders_query c e) (batch_starts (TOTAL_ORDERS c) (BATCH_SIZE c) 0) @
     map (orderitems_query c e) (batch_starts (TOTAL_ITEMS c) (BATCH_SIZE c) 0)"

definition finish :: "(error + unit) \<times> world \<Rightarrow> (error + unit) \<times> world" where
  "finish r = (case r of (Inl err, w) \<Rightarrow> (Inl err, w) | (Inr u, w) \<Rightarrow> pool_end w)"

text \<open>A statement for table \<open>t\<close> with \<open>BATCH_SIZE\<close> rows.\<close>

definition full_batch :: "config \<Rightarrow> string \<Rightarrow> statement \<Rightarrow> bool" where
  "full_batch c t q \<longleftrightarrow> st_table q = t \<and> length (st_values q) = BATCH_SIZE c"

text \<open>
  The same environment with a backend that executes every statement, and the state a
  new process finds: the tables as they are, nothing consumed and nothing logged yet.
\<close>

definition accepting :: "env \<Rightarrow> env" where
  "accepting e = e\<lparr>db_error := \<lambda>n q. None\<rparr>"

definition restart :: "world \<Rightarrow> world" where
  "restart w = \<lparr>random_calls = 0, now_calls = 0, db = db w, log = []\<rparr>"

text \<open>A small configuration, an environment and an empty database to run the model on.\<close>

definition small :: config where
  "small = \<lparr>BATCH_SIZE = 2, TOTAL_USERS = 5, TOTAL_PRODUCTS = 3, TOTAL_ORDERS = 3\<rparr>"

definition quiet :: env where
  "quiet = \<lparr>random = \<lambda>n. 1 / 2, clock = \<lambda>n. 1700000000000, start_ms = 1672531200000,
            db_error = \<lambda>n q. None\<rparr>"

definition empty_world :: world where
  "empty_world = \<lparr>random_calls = 0, now_calls = 0, db = \<lambda>t. [], log = []\<rparr>"

text \<open>What is seen of a stage or a run from outside.\<close>

definition outcome :: "((error + unit) \<times> world) option \<Rightarrow> (error + unit) option" where
  "outcome r = map_option fst r"

definition batch_sizes :: "((error + unit) \<times> world) option \<Rightarrow> nat list option" where
  "batch_sizes r = map_option (\<lambda>(res, w). map (\<lambda>q. length (st_values q)) (submitted (log w))) r"

definition table_after :: "string \<Rightarrow> ((error + unit) \<times> world) option \<Rightarrow> row list option" where
  "table_after t r = map_option (\<lambda>(res, w). db w t) r"

text \<open>The number of statements issued and not yet settled, after a sequence of events.\<close>

fun in_flight :: "event list \<Rightarrow> int" where
  "in_flight [] = 0"
| "in_flight (Issue q # evs) = in_flight evs + 1"
| "in_flight (Resolve # evs) = in_flight evs - 1"
| "in_flight (Reject err # evs) = in_flight evs - 1"
| "in_flight (PoolEnd # evs) = in_flight evs"

text \<open>A backend that executes the first statement and rejects the second.\<close>

definition flaky :: env where
  "flaky = quiet\<lparr>db_error := \<lambda>n q. if n = 1 then Some (DbError ''connection lost'') else None\<rparr>"

definition pool_ends :: "((error + unit) \<times> world) option \<Rightarrow> nat option" where
  "pool_ends r = map_option (\<lambda>(res, w). count_list (log w) PoolEnd) r"

section \<open>Properties\<close>

subsection \<open>Rounding to a double\<close>

lemma round_even_ge: "\<lfloor>y\<rfloor> \<le> round_even y"
  by (simp add: round_even_def Let_def)

lemma round_even_le: "round_even y \<le> \<lceil>y\<rceil>"
proof -
  have "y - of_int \<lfloor>y\<rfloor> \<noteq> 0 \<Longrightarrow> \<lceil>y\<rceil> = \<lfloor>y\<rfloor> + 1"
    by (metis ceiling_altdef eq_iff_diff_eq_0 of_int_floor_cancel)
  moreover have "y - of_int \<lfloor>y\<rfloor> = 0 \<Longrightarrow> \<lceil>y\<rceil> = \<lfloor>y\<rfloor>"
    by (metis ceiling_of_int eq_iff_diff_eq_0)
  moreover have "0 \<le> y - of_int \<lfloor>y\<rfloor>" by simp
  ultimately show ?thesis
    by (cases "y - of_int \<lfloor>y\<rfloor> = 0") (auto simp: round_even_def Let_def)
qed

lemma round_even_int [simp]: "round_even (of_int k) = k"
  by (simp add: round_even_def)

lemma round_even_0 [simp]: "round_even 0 = 0"
  by (simp add: round_even_def)

lemma round_even_numeral [simp]: "round_even (numeral k) = numeral k"
  using round_even_int [of "numeral k"] by simp

lemma floor_rat_numeral [simp]: "\<lfloor>numeral a / numeral b :: rat\<rfloor> = numeral a div numeral b"
  using floor_divide_of_int_eq [of "numeral a" "numeral b", where ?'a = rat] by simp

lemma round_even_less:
  assumes "y < of_int k - 1 / 2"
  shows "round_even y < k"
proof -
  have f: "\<lfloor>y\<rfloor> < k" using assms by (simp add: floor_less_iff)
  show ?thesis
  proof (cases "y - of_int \<lfloor>y\<rfloor> < 1 / 2")
    case True
    then show ?thesis using f by (simp add: round_even_def Let_def)
  next
    case False
    then have "of_int \<lfloor>y\<rfloor> + 1 / 2 \<le> y" by simp
    with assms have "of_int \<lfloor>y\<rfloor> + 1 < (of_int k :: rat)" by simp
    then have "\<lfloor>y\<rfloor> + 1 < k" by (metis of_int_1 of_int_add of_int_less_iff)
    then show ?thesis using round_even_le [of y] f
      by (auto simp: round_even_def Let_def)
  qed
qed

lemma fl_0 [simp]: "fl 0 = 0"
  by (simp add: fl_def)

lemma fl_minus: "fl (- x) = - fl x"
  by (simp add: fl_def Let_def sgn_minus)

text \<open>
  Below \<open>2 ^ 53\<close> the doubles around \<open>x\<close> are the multiples of \<open>1 / 2 ^ t\<close>, for the
  \<open>t\<close> that gives \<open>x\<close> its 53 bits.
\<close>

lemma fl_grid:
  assumes "0 \<le> x" "x < 2 ^ 53"
  shows "\<exists>t. fl x = of_int (round_even (x * 2 ^ t)) / 2 ^ t
           \<and> (2 ^ 52 \<le> x * 2 ^ t \<or> t = scale_bits) \<and> x * 2 ^ t < 2 ^ 53"
proof -
  define K where "K = scale_bits"
  define m where "m = nat \<lfloor>x * 2 ^ K\<rfloor>"
  define s where "s = floorlog 2 m - 53"
  have "x * 2 ^ K < 2 ^ 53 * 2 ^ K" using assms(2) by simp
  then have "x * 2 ^ K < 2 ^ (53 + K)" by (simp only: power_add)
  then have "\<lfloor>x * 2 ^ K\<rfloor> < 2 ^ (53 + K)" by (simp only: floor_less_iff of_int_power of_int_numeral)
  then have "m < 2 ^ (53 + K)" unfolding m_def using assms(1) by (simp add: nat_less_iff)
  then have "floorlog 2 m \<le> 53 + K" by (intro floorlog_leI) simp_all
  then have s: "s \<le> K" by (simp add: s_def)
  define t where "t = K - s"
  have K: "K = t + s" using s by (simp add: t_def)
  have u: "(2::rat) ^ s / 2 ^ K = 1 / 2 ^ t"
    unfolding K by (simp add: power_add)
  have xt: "x * 2 ^ K = x * 2 ^ t * 2 ^ s"
    unfolding K by (simp add: power_add)
  have au: "x / (2 ^ s / 2 ^ K) = x * 2 ^ t"
    unfolding K by (simp add: power_add)
  have "fl x = sgn x * (of_int (round_even (x / (2 ^ s / 2 ^ K))) * (2 ^ s / 2 ^ K))"
    using assms(1) by (simp add: fl_def Let_def K_def m_def s_def)
  then have "fl x = sgn x * (of_int (round_even (x * 2 ^ t)) / 2 ^ t)"
    by (simp only: au u) simp
  moreover have "sgn x * (of_int (round_even (x * 2 ^ t)) / 2 ^ t)
      = of_int (round_even (x * 2 ^ t)) / 2 ^ t"
    using assms(1) by (cases "x = 0") (simp_all add: sgn_if)
  moreover have "2 ^ 52 \<le> x * 2 ^ t \<or> t = K"
  proof (cases "s = 0")
    case True
    then show ?thesis by (simp add: t_def)
  next
    case False
    then have b: "floorlog 2 m = s + 53" by (simp add: s_def)
    then have "0 < m" by (cases "m = 0") (simp_all add: floorlog_def)
    from floorlog_bounds [OF this, of 2] have "2 ^ (s + 52) \<le> m"
      by (simp add: b add.commute)
    then have "(2::rat) ^ (s + 52) \<le> of_nat m"
      by (metis of_nat_le_iff of_nat_numeral of_nat_power)
    also have "of_nat m \<le> x * 2 ^ K"
      unfolding m_def using assms(1) by (simp add: of_nat_nat)
    finally have "(2::rat) ^ 52 * 2 ^ s \<le> x * 2 ^ t * 2 ^ s"
      by (simp only: xt power_add mult.commute)
    then have "(2::rat) ^ 52 \<le> x * 2 ^ t" by (simp only: mult_le_cancel_right) simp
    then show ?thesis by simp
  qed
  moreover have "x * 2 ^ t < 2 ^ 53"
  proof -
    have "floorlog 2 m \<le> s + 53" by (simp add: s_def)
    then have "m < 2 ^ (s + 53)" by (intro floorlog_leD) simp_all
    then have "int m < 2 ^ (s + 53)"
      by (metis of_nat_less_iff of_nat_numeral of_nat_power)
    then have "\<lfloor>x * 2 ^ K\<rfloor> < 2 ^ (s + 53)" unfolding m_def using assms(1) by simp
    then have "x * 2 ^ K < of_int (2 ^ (s + 53))" by (simp only: floor_less_iff)
    then have "x * 2 ^ t * 2 ^ s < 2 ^ 53 * 2 ^ s" by (simp add: xt power_add mult.commute)
    then show ?thesis by (simp only: mult_less_cancel_right) simp
  qed
  ultimately show ?thesis unfolding K_def by metis
qed

lemma fl_bracket_pos:
  assumes "0 \<le> x" "x < 2 ^ 53"
  shows "of_int \<lfloor>x\<rfloor> \<le> fl x \<and> fl x \<le> of_int \<lceil>x\<rceil>"
proof -
  from fl_grid [OF assms] obtain t where t: "fl x = of_int (round_even (x * 2 ^ t)) / 2 ^ t"
    by blast
  have "of_int (\<lfloor>x\<rfloor> * 2 ^ t) \<le> x * 2 ^ t" by simp
  then have "\<lfloor>x\<rfloor> * 2 ^ t \<le> \<lfloor>x * 2 ^ t\<rfloor>" by (simp only: le_floor_iff)
  then have lo: "\<lfloor>x\<rfloor> * 2 ^ t \<le> round_even (x * 2 ^ t)"
    using round_even_ge [of "x * 2 ^ t"] by simp
  have "x * 2 ^ t \<le> of_int (\<lceil>x\<rceil> * 2 ^ t)" by simp
  then have "\<lceil>x * 2 ^ t\<rceil> \<le> \<lceil>x\<rceil> * 2 ^ t" by (simp only: ceiling_le_iff)
  then have hi: "round_even (x * 2 ^ t) \<le> \<lceil>x\<rceil> * 2 ^ t"
    using round_even_le [of "x * 2 ^ t"] by simp
  have "of_int \<lfloor>x\<rfloor> * 2 ^ t \<le> (of_int (round_even (x * 2 ^ t)) :: rat)"
    using lo by (metis of_int_le_iff of_int_mult of_int_numeral of_int_power)
  moreover have "(of_int (round_even (x * 2 ^ t)) :: rat) \<le> of_int \<lceil>x\<rceil> * 2 ^ t"
    using hi by (metis of_int_le_iff of_int_mult of_int_numeral of_int_power)
  ultimately show ?thesis unfolding t by (simp add: field_simps)
qed

lemma fl_bracket:
  assumes "\<bar>x\<bar> < 2 ^ 53"
  shows "of_int \<lfloor>x\<rfloor> \<le> fl x \<and> fl x \<le> of_int \<lceil>x\<rceil>"
proof (cases "0 \<le> x")
  case True
  then show ?thesis using fl_bracket_pos [of x] assms by simp
next
  case False
  then have "0 \<le> - x" "- x < 2 ^ 53" using assms by simp_all
  from fl_bracket_pos [OF this]
  have "of_int \<lfloor>- x\<rfloor> \<le> - fl x" "- fl x \<le> of_int \<lceil>- x\<rceil>"
    by (simp_all add: fl_minus)
  moreover have "\<lfloor>- x\<rfloor> = - \<lceil>x\<rceil>" "\<lceil>- x\<rceil> = - \<lfloor>x\<rfloor>"
    by (simp_all add: ceiling_def)
  ultimately show ?thesis by simp
qed

lemma fl_int:
  assumes "\<bar>k\<bar> < 2 ^ 53"
  shows "fl (of_int k) = of_int k"
proof -
  have "\<bar>of_int k :: rat\<bar> < 2 ^ 53"
    using assms by (metis of_int_abs of_int_less_iff of_int_numeral of_int_power)
  from fl_bracket [OF this] show ?thesis by simp
qed

lemma scale_bits_ge: "53 \<le> scale_bits"
  by (simp add: scale_bits_def)

text \<open>A double below 1 is at most \<open>1 - 1 / 2 ^ 53\<close>.\<close>

lemma double_below_one:
  assumes "fl r = r" "0 \<le> r" "r < 1"
  shows "r \<le> 1 - 1 / 2 ^ 53"
proof -
  have "r < 2 ^ 53" using assms(3) by (rule less_le_trans) simp
  from fl_grid [OF assms(2) this] obtain t where
    t: "r = of_int (round_even (r * 2 ^ t)) / 2 ^ t" "r * 2 ^ t < 2 ^ 53"
    unfolding assms(1) by blast
  define R where "R = round_even (r * 2 ^ t)"
  have rt: "r * 2 ^ t = of_int R" using t(1) by (simp add: R_def field_simps)
  show ?thesis
  proof (cases "t \<le> 53")
    case True
    have lt: "r * 2 ^ t < 2 ^ t" using assms(3) by simp
    have "of_int R < (of_int (2 ^ t) :: rat)" using lt by (simp add: rt)
    then have "R < 2 ^ t" by (simp only: of_int_less_iff)
    then have "R \<le> 2 ^ t - 1" by simp
    then have "(of_int R :: rat) \<le> of_int (2 ^ t - 1)" by (simp only: of_int_le_iff)
    then have "r * 2 ^ t \<le> 2 ^ t - 1" by (simp add: rt)
    then have "r \<le> 1 - 1 / 2 ^ t" by (simp add: field_simps)
    moreover have "(1::rat) / 2 ^ 53 \<le> 1 / 2 ^ t"
      using True by (intro divide_left_mono power_increasing) simp_all
    ultimately show ?thesis by linarith
  next
    case False
    then have "(2::rat) ^ 54 \<le> 2 ^ t" by (intro power_increasing) simp_all
    then have "r * 2 ^ 54 \<le> r * 2 ^ t" using assms(2) by (rule mult_left_mono)
    then have "r * 2 ^ 54 < 2 ^ 53" using t(2) by (rule le_less_trans)
    then have "r < 1 / 2" by simp
    then show ?thesis by simp
  qed
qed

text \<open>
  The product of a double below 1 and a whole number up to \<open>2 ^ 53\<close> stays below the
  number when it is rounded.
\<close>

lemma fl_mult_less:
  assumes "0 \<le> r" "r \<le> 1 - 1 / 2 ^ 53" "0 < n" "n \<le> 2 ^ 53"
  shows "fl (r * of_nat n) < of_nat n"
proof -
  define x where "x = r * of_nat n"
  define N :: rat where "N = of_nat n"
  have N: "1 \<le> N" "N \<le> 2 ^ 53"
    using assms(3,4) unfolding N_def
    by (simp, metis of_nat_le_iff of_nat_numeral of_nat_power)
  have x0: "0 \<le> x" using assms(1) by (simp add: x_def)
  have gap: "N / 2 ^ 53 \<le> N - x"
  proof -
    have "x \<le> (1 - 1 / 2 ^ 53) * N"
      unfolding x_def N_def using assms(2) by (intro mult_right_mono) simp_all
    then show ?thesis by (simp add: field_simps)
  qed
  have "0 < N / 2 ^ 53" using N(1) by simp
  with gap have xN: "x < N" by linarith
  have "x < 2 ^ 53" using xN N(2) by simp
  from fl_grid [OF x0 this] obtain t where
    t: "fl x = of_int (round_even (x * 2 ^ t)) / 2 ^ t" "2 ^ 52 \<le> x * 2 ^ t \<or> t = scale_bits"
    by blast
  have big: "2 ^ 52 < N * 2 ^ t"
  proof (cases "t = scale_bits")
    case True
    have "(2::rat) ^ 52 < 2 ^ 53" by simp
    also have "\<dots> \<le> 2 ^ t" unfolding True using scale_bits_ge by (intro power_increasing) simp_all
    also have "\<dots> \<le> N * 2 ^ t" using N(1) by simp
    finally show ?thesis .
  next
    case False
    then have "2 ^ 52 \<le> x * 2 ^ t" using t(2) by simp
    also have "x * 2 ^ t < N * 2 ^ t" using xN by simp
    finally show ?thesis .
  qed
  have "1 / 2 < (N - x) * 2 ^ t"
  proof -
    have "1 / 2 < N * 2 ^ t / 2 ^ 53" using big by (simp add: field_simps)
    also have "\<dots> = N / 2 ^ 53 * 2 ^ t" by simp
    also have "\<dots> \<le> (N - x) * 2 ^ t" using gap by (intro mult_right_mono) simp_all
    finally show ?thesis .
  qed
  then have "x * 2 ^ t < of_int (int n * 2 ^ t) - 1 / 2"
    by (simp add: N_def algebra_simps)
  from round_even_less [OF this] have "round_even (x * 2 ^ t) < int n * 2 ^ t" .
  then have "(of_int (round_even (x * 2 ^ t)) :: rat) < of_int (int n * 2 ^ t)"
    by (simp only: of_int_less_iff)
  then have "fl x < of_nat n" unfolding t(1) by (simp add: field_simps)
  then show ?thesis by (simp add: x_def)
qed

text \<open>How to compute \<open>fl x\<close>: scale \<open>x\<close> to 53 bits, round, scale back.\<close>

lemma fl_eval:
  assumes "2 ^ 52 \<le> x * 2 ^ t" "x * 2 ^ t < 2 ^ 53" "t \<le> scale_bits"
  shows "fl x = of_int (round_even (x * 2 ^ t)) / 2 ^ t"
proof -
  define K where "K = scale_bits"
  define s where "s = K - t"
  have K: "K = t + s" using assms(3) by (simp add: s_def K_def)
  have x: "0 < x"
  proof -
    have "(0::rat) < 2 ^ 52" by simp
    then have "0 < x * 2 ^ t" using assms(1) by (rule less_le_trans)
    then show ?thesis by (simp add: zero_less_mult_iff)
  qed
  define m where "m = nat \<lfloor>x * 2 ^ K\<rfloor>"
  have xK: "x * 2 ^ K = x * 2 ^ t * 2 ^ s" unfolding K by (simp add: power_add)
  have "(2::rat) ^ 52 * 2 ^ s \<le> x * 2 ^ K" unfolding xK using assms(1) by simp
  then have "of_int (2 ^ (52 + s)) \<le> x * 2 ^ K" by (simp add: power_add)
  then have "2 ^ (52 + s) \<le> \<lfloor>x * 2 ^ K\<rfloor>" by (simp only: le_floor_iff)
  then have lo: "2 ^ (52 + s) \<le> m" unfolding m_def by (simp add: le_nat_iff)
  have "x * 2 ^ K < 2 ^ 53 * 2 ^ s" unfolding xK using assms(2) by simp
  then have "x * 2 ^ K < of_int (2 ^ (53 + s))" by (simp add: power_add)
  then have "\<lfloor>x * 2 ^ K\<rfloor> < 2 ^ (53 + s)" by (simp only: floor_less_iff)
  then have hi: "m < 2 ^ (53 + s)" unfolding m_def using x by (simp add: nat_less_iff)
  have "floorlog 2 m \<le> 53 + s" using hi by (intro floorlog_leI) simp_all
  moreover have "Suc (52 + s) \<le> floorlog 2 m" using lo by (intro floorlog_ge_SucI) simp_all
  ultimately have b: "floorlog 2 m - 53 = s" by simp
  have u: "(2::rat) ^ s / 2 ^ K = 1 / 2 ^ t" unfolding K by (simp add: power_add)
  have au: "x / (2 ^ s / 2 ^ K) = x * 2 ^ t" unfolding K by (simp add: power_add)
  have "fl x = sgn x * (of_int (round_even (x / (2 ^ s / 2 ^ K))) * (2 ^ s / 2 ^ K))"
    using x b by (simp add: fl_def Let_def K_def m_def)
  then show ?thesis using x by (simp only: au u) simp
qed

lemma fl_half: "fl (1 / 2) = 1 / 2"
proof -
  have "fl (1 / 2) = of_int (round_even (1 / 2 * 2 ^ 53)) / 2 ^ 53"
    by (rule fl_eval) (simp_all add: scale_bits_def)
  then show ?thesis by simp
qed

text \<open>
  Rounding matters: this product is below 1210, its double is 1210.
\<close>

lemma fl_rounds_up:
  "54493555491183 / 2 ^ 52 * 100000 < (1210::rat)"
  "fl (54493555491183 / 2 ^ 52 * 100000) = 1210"
proof -
  show "54493555491183 / 2 ^ 52 * 100000 < (1210::rat)" by simp
  have "fl (54493555491183 / 2 ^ 52 * 100000)
      = of_int (round_even (54493555491183 / 2 ^ 52 * 100000 * 2 ^ 42)) / 2 ^ 42"
    by (rule fl_eval) (simp_all add: scale_bits_def)
  also have "round_even (54493555491183 / 2 ^ 52 * 100000 * 2 ^ 42) = 5321636278435840"
    by (simp add: round_even_def Let_def)
  finally show "fl (54493555491183 / 2 ^ 52 * 100000) = 1210" by simp
qed

lemma fl_numeral [simp]: "numeral k < (2::int) ^ 53 \<Longrightarrow> fl (numeral k) = numeral k"
  using fl_int [of "numeral k"] by simp

subsection \<open>Rounding up\<close>

lemma div_add_one: "0 < (b::nat) \<Longrightarrow> (a + b) div b = Suc (a div b)"
  using div_add_self2 [of b a] by simp

lemma ceil_div_add: "0 < bs \<Longrightarrow> ceil_div (m + bs) bs = Suc (ceil_div m bs)"
proof -
  assume bs: "0 < bs"
  then have "m + bs + bs - 1 = (m + bs - 1) + bs" by simp
  then show ?thesis unfolding ceil_div_def using div_add_one [OF bs] by presburger
qed

lemma ceil_div_small: "0 < n \<Longrightarrow> n \<le> bs \<Longrightarrow> ceil_div n bs = 1"
proof -
  assume "0 < n" "n \<le> bs"
  then obtain k where k: "n = Suc k" "k < bs" by (cases n) auto
  then have "n + bs - 1 = k + bs" by simp
  then show ?thesis unfolding ceil_div_def using div_add_one [of bs k] k(2) by simp
qed

lemma ceil_div_0: "0 < bs \<Longrightarrow> ceil_div 0 bs = 0"
  by (simp add: ceil_div_def)

lemma ceil_div_step:
  assumes "0 < bs" "i < tot"
  shows "ceil_div (tot - i) bs = Suc (ceil_div (tot - (i + bs)) bs)"
proof (cases "i + bs \<le> tot")
  case True
  then have "tot - i = (tot - (i + bs)) + bs" by simp
  then show ?thesis using ceil_div_add [OF assms(1)] by presburger
next
  case False
  then have "tot - (i + bs) = 0" "0 < tot - i" "tot - i \<le> bs" using assms by simp_all
  then show ?thesis using ceil_div_small [of "tot - i" bs] ceil_div_0 [OF assms(1)] by presburger
qed

lemma ceil_div_add2: "0 < bs \<Longrightarrow> ceil_div (bs + m) bs = Suc (ceil_div m bs)"
  using ceil_div_add [of bs m] by (simp add: add.commute)

lemma ceil_div_mult: "0 < bs \<Longrightarrow> ceil_div (k * bs) bs = k"
  by (induction k) (simp_all add: ceil_div_0 ceil_div_add2)

lemma ceil_div_dvd: "0 < bs \<Longrightarrow> bs dvd n \<Longrightarrow> ceil_div n bs * bs = n"
  by (auto simp: dvd_def ceil_div_mult mult.commute)

lemma ceil_div_ceiling: "0 < bs \<Longrightarrow> int (ceil_div n bs) = \<lceil>real n / real bs\<rceil>"
proof (induction n rule: less_induct)
  case (less n)
  show ?case
  proof (cases "n = 0")
    case True
    then show ?thesis using less.prems by (simp add: ceil_div_0)
  next
    case False
    show ?thesis
    proof (cases "n \<le> bs")
      case True
      then have "0 < real n / real bs" "real n / real bs \<le> 1" using False less.prems by simp_all
      then have "\<lceil>real n / real bs\<rceil> = 1" by (simp add: ceiling_eq_iff)
      then show ?thesis using ceil_div_small [of n bs] True False by simp
    next
      case False
      then obtain m where m: "n = m + bs" "m < n" using less.prems
        by (intro that [of "n - bs"]) auto
      have "real n / real bs = real m / real bs + 1" using less.prems by (simp add: m(1) field_simps)
      then have "\<lceil>real n / real bs\<rceil> = \<lceil>real m / real bs\<rceil> + 1" by simp
      then show ?thesis using less.IH [OF m(2) less.prems] ceil_div_add [OF less.prems, of m]
        by (simp add: m(1))
    qed
  qed
qed

subsection \<open>The outer loop returns when the batch size is not 0\<close>

lemma batch_starts_step:
  assumes "0 < bs" "i < tot"
  shows "batch_starts tot bs i = i # batch_starts tot bs (i + bs)"
proof -
  have "map (\<lambda>k. i + k * bs) [0..<Suc n] = i # map (\<lambda>k. i + bs + k * bs) [0..<n]" for n
    by (simp add: upt_conv_Cons map_Suc_upt [symmetric] del: upt_Suc) 
  then show ?thesis
    unfolding batch_starts_def ceil_div_step [OF assms] by simp
qed

lemma batch_starts_done: "\<not> i < tot \<Longrightarrow> batch_starts tot bs i = []"
  by (cases "bs = 0") (simp_all add: batch_starts_def ceil_div_def)

lemma length_batch_starts: "length (batch_starts tot bs 0) = ceil_div tot bs"
  by (simp add: batch_starts_def)

lemma batch_loop_unroll:
  assumes "0 < bs"
  shows "batch_loop build e tot bs i w = Some (run_jobs e (map build (batch_starts tot bs i)) w)"
proof (induction "tot - i" arbitrary: i w rule: less_induct)
  case less
  show ?case
  proof (cases "i < tot")
    case False
    then show ?thesis
      by (subst batch_loop.simps) (simp add: batch_starts_done)
  next
    case True
    then have "tot - (i + bs) < tot - i" using assms by simp
    then have IH: "batch_loop build e tot bs (i + bs) w' =
        Some (run_jobs e (map build (batch_starts tot bs (i + bs))) w')" for w'
      by (rule less)
    show ?thesis
      by (subst batch_loop.simps)
         (simp add: True batch_starts_step [OF assms True] IH split: prod.splits sum.splits)
  qed
qed

subsection \<open>What a sequence of statements leaves behind\<close>

lemma submitted_append [simp]: "submitted (xs @ ys) = submitted xs @ submitted ys"
  by (induction xs rule: submitted.induct) simp_all

lemma submitted_ok_events [simp]: "submitted (ok_events qs) = qs"
  by (induction qs) simp_all

lemma ok_events_append [simp]: "ok_events (xs @ ys) = ok_events xs @ ok_events ys"
  by (induction xs) simp_all

lemma pool_query_Some:
  "db_error e (length (submitted (log w))) q = Some err \<Longrightarrow>
   pool_query e q w = (Inl err, w\<lparr>log := log w @ [Issue q, Reject err]\<rparr>)"
  by (simp add: pool_query_def)

lemma pool_query_None:
  "db_error e (length (submitted (log w))) q = None \<Longrightarrow>
   pool_query e q w =
     (Inr (), w\<lparr>db := apply_insert q (db w), log := log w @ [Issue q, Resolve]\<rparr>)"
  by (simp add: pool_query_def apply_insert_def)

text \<open>
  Whatever the backend answers: the statements \<open>qs\<close> it executes are issued and
  resolved in turn and change the tables; then either nothing is left to do, or the
  next statement is rejected and that is the end.
\<close>

lemma run_jobs_shape:
  assumes "list_all2 (\<lambda>job t. \<forall>w. log (snd (job w)) = log w \<and> db (snd (job w)) = db w
                                  \<and> P t (fst (job w))) jobs ts"
  shows "\<exists>qs. list_all2 P (take (length qs) ts) qs
           \<and> (\<forall>k<length qs. db_error e (length (submitted (log w)) + k) (qs ! k) = None)
           \<and> db (snd (run_jobs e jobs w)) = fold apply_insert qs (db w)
           \<and> (fst (run_jobs e jobs w) = Inr () \<and> length qs = length jobs
                \<and> log (snd (run_jobs e jobs w)) = log w @ ok_events qs
              \<or> (\<exists>q err. fst (run_jobs e jobs w) = Inl err \<and> length qs < length jobs
                    \<and> P (ts ! length qs) q
                    \<and> db_error e (length (submitted (log w)) + length qs) q = Some err
                    \<and> log (snd (run_jobs e jobs w))
                         = log w @ ok_events qs @ [Issue q, Reject err]))"
  using assms
proof (induction jobs ts arbitrary: w rule: list_all2_induct)
  case Nil
  show ?case by (rule exI [of _ "[]"]) simp
next
  case (Cons job jobs t ts)
  obtain q w1 where b: "job w = (q, w1)" by (cases "job w")
  have w1: "log w1 = log w" "db w1 = db w" and Pq: "P t q"
    using Cons.hyps(1) [rule_format, of w] by (simp_all add: b)
  let ?n = "length (submitted (log w))"
  show ?case
  proof (cases "db_error e ?n q")
    case (Some err)
    then have "pool_query e q w1 = (Inl err, w1\<lparr>log := log w1 @ [Issue q, Reject err]\<rparr>)"
      by (intro pool_query_Some) (simp add: w1)
    then show ?thesis
      using Some Pq by (intro exI [of _ "[]"]) (simp add: b w1)
  next
    case None
    define w2 where "w2 = w1\<lparr>db := apply_insert q (db w1), log := log w1 @ [Issue q, Resolve]\<rparr>"
    have pq: "pool_query e q w1 = (Inr (), w2)"
      unfolding w2_def by (intro pool_query_None) (simp add: w1 None)
    have r: "run_jobs e (job # jobs) w = run_jobs e jobs w2"
      by (simp add: b pq)
    have lw2: "log w2 = log w @ [Issue q, Resolve]" and dw2: "db w2 = apply_insert q (db w)"
      by (simp_all add: w2_def w1)
    have n2: "length (submitted (log w2)) = Suc ?n" by (simp add: lw2)
    from Cons.IH [of w2] obtain qs where qs:
      "list_all2 P (take (length qs) ts) qs"
      "\<And>k. k < length qs \<Longrightarrow> db_error e (Suc ?n + k) (qs ! k) = None"
      "db (snd (run_jobs e jobs w2)) = fold apply_insert qs (db w2)"
      "fst (run_jobs e jobs w2) = Inr () \<and> length qs = length jobs
                \<and> log (snd (run_jobs e jobs w2)) = log w2 @ ok_events qs
              \<or> (\<exists>q err. fst (run_jobs e jobs w2) = Inl err \<and> length qs < length jobs
                    \<and> P (ts ! length qs) q
                    \<and> db_error e (Suc ?n + length qs) q = Some err
                    \<and> log (snd (run_jobs e jobs w2))
                         = log w2 @ ok_events qs @ [Issue q, Reject err])"
      unfolding n2 by blast
    have c1: "list_all2 P (take (length (q # qs)) (t # ts)) (q # qs)"
      using qs(1) Pq by simp
    have c2: "\<forall>k<length (q # qs). db_error e (?n + k) ((q # qs) ! k) = None"
    proof (intro allI impI)
      fix k assume "k < length (q # qs)"
      then show "db_error e (?n + k) ((q # qs) ! k) = None"
        using qs(2) [of "k - 1"] None by (cases k) simp_all
    qed
    have c3: "db (snd (run_jobs e jobs w2)) = fold apply_insert (q # qs) (db w)"
      using qs(3) by (simp add: dw2)
    have c4: "fst (run_jobs e jobs w2) = Inr () \<and> length (q # qs) = length (job # jobs)
                \<and> log (snd (run_jobs e jobs w2)) = log w @ ok_events (q # qs)
              \<or> (\<exists>q' err. fst (run_jobs e jobs w2) = Inl err
                    \<and> length (q # qs) < length (job # jobs)
                    \<and> P ((t # ts) ! length (q # qs)) q'
                    \<and> db_error e (?n + length (q # qs)) q' = Some err
                    \<and> log (snd (run_jobs e jobs w2))
                         = log w @ ok_events (q # qs) @ [Issue q', Reject err])"
      using qs(4) by (simp add: lw2)
    show ?thesis
      unfolding r by (rule exI [of _ "q # qs"]) (intro conjI c1 c2 c3 c4)
  qed
qed

lemma run_jobs_append:
  "run_jobs e (js1 @ js2) w =
     (case run_jobs e js1 w of
        (Inl err, w1) \<Rightarrow> (Inl err, w1)
      | (Inr u, w1) \<Rightarrow> run_jobs e js2 w1)"
  by (induction js1 arbitrary: w) (simp_all split: prod.splits sum.splits)

lemma fold_apply_insert:
  "fold apply_insert qs d t = d t @ concat (map st_values (filter (\<lambda>q. st_table q = t) qs))"
  by (induction qs arbitrary: d) (simp_all add: apply_insert_def)

subsection \<open>The inner loops\<close>

lemma values_loop_pure:
  "values_loop (\<lambda>j w. (f j, w)) bs j vals w = (vals @ map f [j..<bs], w)"
proof (induction "bs - j" arbitrary: j vals)
  case 0
  then show ?case by (subst values_loop.simps) simp
next
  case (Suc n)
  then have "j < bs" "n = bs - Suc j" by simp_all
  then show ?case
    using Suc.hyps(1) [of "Suc j" "vals @ [f j]"]
    by (subst values_loop.simps) (simp add: upt_conv_Cons)
qed

lemma values_loop_frame:
  assumes "\<And>j w. log (snd (mk j w)) = log w \<and> db (snd (mk j w)) = db w \<and> R (fst (mk j w))"
  shows "log (snd (values_loop mk bs j vals w)) = log w
       \<and> db (snd (values_loop mk bs j vals w)) = db w
       \<and> length (fst (values_loop mk bs j vals w)) = length vals + (bs - j)
       \<and> (list_all R vals \<longrightarrow> list_all R (fst (values_loop mk bs j vals w)))"
proof (induction "bs - j" arbitrary: j vals w)
  case 0
  then show ?case by (subst (1 2 3 4) values_loop.simps) simp
next
  case (Suc n)
  then have j: "j < bs" "n = bs - Suc j" by simp_all
  obtain v w1 where m: "mk j w = (v, w1)" by (cases "mk j w")
  have w1: "log w1 = log w" "db w1 = db w" "R v" using assms [of j w] by (simp_all add: m)
  have step: "values_loop mk bs j vals w = values_loop mk bs (Suc j) (vals @ [v]) w1"
    by (subst values_loop.simps) (simp add: j m)
  show ?case
    unfolding step using Suc.hyps(1) [OF j(2), of "vals @ [v]" w1] j(1) w1 by simp
qed

lemma users_query_eq: "users_query c i w = (users_statement c i, w)"
  by (simp add: users_query_def users_statement_def values_loop_pure)

lemma Math_random_frame [simp]:
  "log (snd (Math_random e w)) = log w" "db (snd (Math_random e w)) = db w"
  "fst (Math_random e w) = random e (random_calls w)"
  by (simp_all add: Math_random_def)

lemma Date_now_frame [simp]:
  "log (snd (Date_now e w)) = log w" "db (snd (Date_now e w)) = db w"
  "fst (Date_now e w) = clock e (now_calls w)"
  by (simp_all add: Date_now_def)

lemma randomDate_frame [simp]:
  "log (snd (randomDate e w)) = log w" "db (snd (randomDate e w)) = db w"
  by (simp_all add: randomDate_def Let_def split: prod.splits)
     (metis Date_now_frame(1) Math_random_frame(1) snd_conv,
      metis Date_now_frame(2) Math_random_frame(2) snd_conv)

lemma product_value_frame:
  "log (snd (product_value e i j w)) = log w \<and> db (snd (product_value e i j w)) = db w \<and> True"
  by (simp add: product_value_def Math_random_def Let_def)

lemma products_query_frame:
  "log (snd (products_query c e i w)) = log w \<and> db (snd (products_query c e i w)) = db w
   \<and> st_table (fst (products_query c e i w)) = ''products''
   \<and> length (st_values (fst (products_query c e i w))) = BATCH_SIZE c"
  using values_loop_frame [of "product_value e i" "\<lambda>_. True" "BATCH_SIZE c" 0 "[]" w,
          OF product_value_frame]
  by (auto simp: products_query_def split: prod.splits)

subsection \<open>The ranges of the random values\<close>

lemma random_id_range:
  assumes "fl r = r" "0 \<le> r" "r < 1" "0 < n" "n \<le> 2 ^ 53"
  shows "1 \<le> random_id n r \<and> random_id n r \<le> int n"
proof -
  have x: "0 \<le> r * of_nat n" using assms by simp
  have "r * of_nat n < of_nat n" using assms by simp
  also have "(of_nat n :: rat) \<le> 2 ^ 53"
    using assms(5) by (metis of_nat_le_iff of_nat_numeral of_nat_power)
  finally have "r * of_nat n < 2 ^ 53" .
  from fl_bracket_pos [OF x this] have "0 \<le> fl (r * of_nat n)"
    using x by (meson le_floor_iff of_int_0_le_iff order_trans zero_le_floor)
  then have lo: "0 \<le> \<lfloor>fl (r * of_nat n)\<rfloor>" by simp
  have "fl (r * of_nat n) < of_int (int n)"
    using fl_mult_less [OF assms(2) double_below_one [OF assms(1,2,3)] assms(4,5)] by simp
  then have "\<lfloor>fl (r * of_nat n)\<rfloor> < int n" by (simp only: floor_less_iff)
  with lo show ?thesis by (simp add: random_id_def)
qed


lemma random_price_range:
  assumes "0 \<le> r" "r < 1"
  shows "\<exists>h. random_price r = SqlFixed2 h \<and> 0 \<le> h \<and> h \<le> 50000"
proof -
  define p where "p = fl (r * 500)"
  have x: "0 \<le> r * 500" "r * 500 < 2 ^ 53" using assms by simp_all
  from fl_bracket_pos [OF x] have "of_int \<lfloor>r * 500\<rfloor> \<le> p" "p \<le> of_int \<lceil>r * 500\<rceil>"
    by (simp_all add: p_def)
  moreover have "0 \<le> \<lfloor>r * 500\<rfloor>" using x(1) by simp
  moreover have "\<lceil>r * 500\<rceil> \<le> 500" using assms(2) by (simp add: ceiling_le_iff)
  ultimately have p: "0 \<le> p" "p \<le> 500"
    by (meson of_int_0_le_iff order_trans, metis of_int_le_iff of_int_numeral order_trans)
  have f: "toFixed2 p = \<lfloor>p * 100 + 1 / 2\<rfloor>" using p(1) by (simp add: toFixed2_def)
  have "0 \<le> p * 100 + 1 / 2" using p(1) by simp
  then have lo: "0 \<le> toFixed2 p" unfolding f by simp
  have "p * 100 + 1 / 2 < 50001" using p(2) by simp
  then have "toFixed2 p < 50001" unfolding f by (simp add: floor_less_iff)
  with lo show ?thesis by (simp add: random_price_def p_def)
qed

lemma TimeClip_between:
  assumes "of_int a \<le> x" "x \<le> of_int b"
  shows "a \<le> TimeClip x \<and> TimeClip x \<le> b"
  using assms by (auto simp: TimeClip_def le_floor_iff floor_le_iff ceiling_le_iff le_ceiling_iff)

lemma fl_between:
  assumes "of_int a \<le> x" "x \<le> of_int b" "0 \<le> a" "b < 2 ^ 53"
  shows "of_int a \<le> fl x \<and> fl x \<le> of_int b"
proof -
  have x0: "0 \<le> x" using assms(1,3) by (meson of_int_0_le_iff order_trans)
  have "(of_int b :: rat) < 2 ^ 53"
    using assms(4) by (metis of_int_less_iff of_int_numeral of_int_power)
  with assms(2) have "x < 2 ^ 53" by (rule le_less_trans)
  from fl_bracket_pos [OF x0 this] have "of_int \<lfloor>x\<rfloor> \<le> fl x" "fl x \<le> of_int \<lceil>x\<rceil>"
    by simp_all
  moreover have "a \<le> \<lfloor>x\<rfloor>" using assms(1) by (simp add: le_floor_iff)
  moreover have "\<lceil>x\<rceil> \<le> b" using assms(2) by (simp add: ceiling_le_iff)
  ultimately show ?thesis
    by (meson of_int_le_iff order_trans)
qed

lemma sample_date_range:
  assumes "0 \<le> r" "r < 1" "0 \<le> start" "start \<le> en" "en \<le> 8640000000000000"
  shows "start \<le> sample_date start en r \<and> sample_date start en r \<le> en"
proof -
  have big: "en < 2 ^ 53" using assms(5) by simp
  define d where "d = en - start"
  have d: "0 \<le> d" "d \<le> en" "\<bar>d\<bar> < 2 ^ 53" using assms(3,4) big by (simp_all add: d_def)
  have fd: "fl (of_int en - of_int start) = of_int d"
    using fl_int [OF d(3)] by (simp add: d_def)
  define p where "p = fl (r * of_int d)"
  have "of_int 0 \<le> r * of_int d" using assms(1) d(1) by simp
  moreover have "r * of_int d \<le> of_int d"
    using mult_left_le_one_le [of "of_int d" r] assms(1,2) d(1) by simp
  moreover have "d < 2 ^ 53" using d(3) by simp
  ultimately have "of_int 0 \<le> p \<and> p \<le> of_int d"
    unfolding p_def by (intro fl_between) simp_all
  then have "of_int start \<le> of_int start + p" "of_int start + p \<le> of_int en"
    by (simp_all add: d_def)
  from fl_between [OF this assms(3) big]
  have "of_int start \<le> fl (of_int start + p) \<and> fl (of_int start + p) \<le> of_int en" .
  from TimeClip_between [of start "fl (of_int start + p)" en] this show ?thesis
    by (simp add: sample_date_def fd p_def)
qed

lemma randomDate_eq:
  "randomDate e w =
     (sample_date (start_ms e) (clock e (now_calls w)) (random e (random_calls w)),
      w\<lparr>random_calls := Suc (random_calls w), now_calls := Suc (now_calls w)\<rparr>)"
  by (simp add: randomDate_def Date_now_def Math_random_def Let_def)

lemma randomDate_range:
  assumes "unit_random e" "clock_between e T"
  shows "start_ms e \<le> fst (randomDate e w) \<and> fst (randomDate e w) \<le> T"
proof -
  have r: "0 \<le> random e (random_calls w)" "random e (random_calls w) < 1"
    using assms(1) by (simp_all add: unit_random_def)
  have c: "0 \<le> start_ms e" "start_ms e \<le> clock e (now_calls w)" "clock e (now_calls w) \<le> T"
    "T \<le> 8640000000000000"
    using assms(2) by (simp_all add: clock_between_def)
  then have "clock e (now_calls w) \<le> 8640000000000000" by simp
  from sample_date_range [OF r c(1,2) this] c(3) show ?thesis
    by (simp add: randomDate_eq)
qed

lemma order_value_eq:
  "order_value c e j w =
     (order_row c e (random_calls w) (now_calls w),
      w\<lparr>random_calls := random_calls w + 2, now_calls := now_calls w + 1\<rparr>)"
  by (simp add: order_value_def order_row_def Math_random_def randomDate_eq Let_def)

lemma orderitem_value_eq:
  "orderitem_value c e j w =
     (orderitem_row c e (random_calls w), w\<lparr>random_calls := random_calls w + 4\<rparr>)"
  by (simp add: orderitem_value_def orderitem_row_def Math_random_def Let_def eval_nat_numeral)


lemma orderitem_row_in_range:
  assumes "unit_random e" "0 < TOTAL_ORDERS c" "TOTAL_ORDERS c \<le> 2 ^ 53"
    "0 < TOTAL_PRODUCTS c" "TOTAL_PRODUCTS c \<le> 2 ^ 53"
  shows "orderitem_row_ok c (orderitem_row c e rc)"
proof -
  have r: "fl (random e n) = random e n" "0 \<le> random e n" "random e n < 1" for n
    using assms(1) by (simp_all add: unit_random_def)
  obtain h where h: "random_price (random e (rc + 3)) = SqlFixed2 h" "0 \<le> h" "h \<le> 50000"
    using random_price_range [OF r(2,3)] by blast
  have ten: "(0::nat) < 10" "(10::nat) \<le> 2 ^ 53" by simp_all
  show ?thesis
    using random_id_range [OF r assms(2,3), of rc]
      random_id_range [OF r assms(4,5), of "rc + 1"]
      random_id_range [OF r ten, of "rc + 2"] h
    by (simp add: orderitem_row_def)
qed



lemma order_value_frame:
  "log (snd (order_value c e j w)) = log w \<and> db (snd (order_value c e j w)) = db w \<and> True"
  by (simp add: order_value_eq)

lemma orders_query_frame:
  "log (snd (orders_query c e i w)) = log w \<and> db (snd (orders_query c e i w)) = db w
   \<and> st_table (fst (orders_query c e i w)) = ''orders''
   \<and> length (st_values (fst (orders_query c e i w))) = BATCH_SIZE c"
  using values_loop_frame [of "order_value c e" "\<lambda>_. True" "BATCH_SIZE c" 0 "[]" w,
          OF order_value_frame]
  by (auto simp: orders_query_def split: prod.splits)

lemma orderitem_value_frame:
  "log (snd (orderitem_value c e j w)) = log w \<and> db (snd (orderitem_value c e j w)) = db w \<and> True"
  by (simp add: orderitem_value_eq)

lemma orderitem_value_ok:
  assumes "unit_random e" "0 < TOTAL_ORDERS c" "TOTAL_ORDERS c \<le> 2 ^ 53"
    "0 < TOTAL_PRODUCTS c" "TOTAL_PRODUCTS c \<le> 2 ^ 53"
  shows "log (snd (orderitem_value c e j w)) = log w \<and> db (snd (orderitem_value c e j w)) = db w
         \<and> orderitem_row_ok c (fst (orderitem_value c e j w))"
  using orderitem_row_in_range [OF assms] by (simp add: orderitem_value_eq)

lemma orderitems_query_frame:
  "log (snd (orderitems_query c e i w)) = log w \<and> db (snd (orderitems_query c e i w)) = db w
   \<and> st_table (fst (orderitems_query c e i w)) = ''orderitems''
   \<and> length (st_values (fst (orderitems_query c e i w))) = BATCH_SIZE c"
  using values_loop_frame [of "orderitem_value c e" "\<lambda>_. True" "BATCH_SIZE c" 0 "[]" w,
          OF orderitem_value_frame]
  by (auto simp: orderitems_query_def split: prod.splits)

lemma orderitems_query_ok:
  assumes "unit_random e" "0 < TOTAL_ORDERS c" "TOTAL_ORDERS c \<le> 2 ^ 53"
    "0 < TOTAL_PRODUCTS c" "TOTAL_PRODUCTS c \<le> 2 ^ 53"
  shows "log (snd (orderitems_query c e i w)) = log w \<and> db (snd (orderitems_query c e i w)) = db w
   \<and> st_table (fst (orderitems_query c e i w)) = ''orderitems''
   \<and> length (st_values (fst (orderitems_query c e i w))) = BATCH_SIZE c
   \<and> list_all (orderitem_row_ok c) (st_values (fst (orderitems_query c e i w)))"
  using values_loop_frame [of "orderitem_value c e" "orderitem_row_ok c" "BATCH_SIZE c" 0 "[]" w,
          OF orderitem_value_ok [OF assms]]
  by (auto simp: orderitems_query_def split: prod.splits)

subsection \<open>The rows as functions of the random numbers and clock readings\<close>

lemma values_loop_counted:
  assumes "\<And>j w. mk j w = (rw (random_calls w) (now_calls w),
              w\<lparr>random_calls := random_calls w + a, now_calls := now_calls w + b\<rparr>)"
  shows "values_loop mk bs j vals w =
     (vals @ map (\<lambda>k. rw (random_calls w + k * a) (now_calls w + k * b)) [0..<bs - j],
      w\<lparr>random_calls := random_calls w + (bs - j) * a,
        now_calls := now_calls w + (bs - j) * b\<rparr>)"
proof (induction "bs - j" arbitrary: j vals w)
  case 0
  then show ?case by (subst values_loop.simps) simp
next
  case (Suc n)
  then have j: "j < bs" "n = bs - Suc j" "bs - j = Suc n" by simp_all
  let ?w1 = "w\<lparr>random_calls := random_calls w + a, now_calls := now_calls w + b\<rparr>"
  have step: "values_loop mk bs j vals w
      = values_loop mk bs (Suc j) (vals @ [rw (random_calls w) (now_calls w)]) ?w1"
    by (subst values_loop.simps) (simp add: j assms)
  have rows: "map (\<lambda>k. rw (random_calls w + k * a) (now_calls w + k * b)) [0..<Suc n]
      = rw (random_calls w) (now_calls w)
        # map (\<lambda>k. rw (random_calls w + a + k * a) (now_calls w + b + k * b)) [0..<n]"
    by (simp add: map_upt_Suc add.assoc del: upt_Suc)
  show ?case
    unfolding step j(3) rows
    using Suc.hyps(1) [OF j(2), of "vals @ [rw (random_calls w) (now_calls w)]" ?w1]
    by (simp add: j(2) [symmetric] add.assoc)
qed


lemma orderitems_query_eq:
  "orderitems_query c e i w =
     (orderitems_statement c e (random_calls w),
      w\<lparr>random_calls := random_calls w + 4 * BATCH_SIZE c\<rparr>)"
  using values_loop_counted [where mk = "orderitem_value c e"
          and rw = "\<lambda>rc nc. orderitem_row c e rc" and a = 4 and b = 0
          and bs = "BATCH_SIZE c" and j = 0 and vals = "[]" and w = w]
  by (simp add: orderitem_value_eq orderitems_query_def orderitems_statement_def mult.commute)

text \<open>
  Three inputs on which the rounding of the double product decides the value: the
  exact products are just below 1210 and just above 8.965, their doubles are 1210
  and a number below 8.965; and the largest double below 1 gives the end of the
  range of dates itself.
\<close>

lemma random_id_rounds_up: "random_id 100000 (54493555491183 / 2 ^ 52) = 1211"
proof -
  have "random_id 100000 (54493555491183 / 2 ^ 52)
      = \<lfloor>fl (54493555491183 / 2 ^ 52 * 100000)\<rfloor> + 1"
    by (simp only: random_id_def of_nat_numeral)
  also have "\<dots> = \<lfloor>1210 :: rat\<rfloor> + 1" by (simp only: fl_rounds_up(2))
  finally show ?thesis by simp
qed

lemma random_price_rounds_down: "random_price (80749541318753 / 2 ^ 52) = SqlFixed2 896"
proof -
  have "fl (80749541318753 / 2 ^ 52 * 500)
      = of_int (round_even (80749541318753 / 2 ^ 52 * 500 * 2 ^ 49)) / 2 ^ 49"
    by (rule fl_eval) (simp_all add: scale_bits_def)
  also have "round_even (80749541318753 / 2 ^ 52 * 500 * 2 ^ 49) = 5046846332422062"
    by (simp add: round_even_def Let_def floor_eq_iff)
  finally show ?thesis
    by (simp add: random_price_def toFixed2_def floor_eq_iff)
qed

lemma sample_date_reaches_end:
  "sample_date 1672531200000 1700000000000 (1 - 1 / 2 ^ 53) = 1700000000000"
proof -
  have "fl ((1 - 1 / 2 ^ 53) * 27468800000)
      = of_int (round_even ((1 - 1 / 2 ^ 53) * 27468800000 * 2 ^ 18)) / 2 ^ 18"
    by (rule fl_eval) (simp_all add: scale_bits_def)
  also have "round_even ((1 - 1 / 2 ^ 53) * 27468800000 * 2 ^ 18) = 7200781107199999"
    by (simp add: round_even_def Let_def floor_eq_iff)
  finally have a: "fl ((1 - 1 / 2 ^ 53) * 27468800000) = 7200781107199999 / 2 ^ 18"
    by simp
  have "fl (1672531200000 + 7200781107199999 / 2 ^ 18)
      = of_int (round_even ((1672531200000 + 7200781107199999 / 2 ^ 18) * 2 ^ 12)) / 2 ^ 12"
    by (rule fl_eval) (simp_all add: scale_bits_def)
  also have "round_even ((1672531200000 + 7200781107199999 / 2 ^ 18) * 2 ^ 12)
      = 6963200000000000"
    by (simp add: round_even_def Let_def floor_eq_iff)
  finally have b: "fl (1672531200000 + 7200781107199999 / 2 ^ 18) = 1700000000000"
    by simp
  have "sample_date 1672531200000 1700000000000 r
      = TimeClip (fl (1672531200000 + fl (r * 27468800000)))" for r
    by (simp add: sample_date_def)
  then have "sample_date 1672531200000 1700000000000 (1 - 1 / 2 ^ 53)
      = TimeClip (fl (1672531200000 + fl ((1 - 1 / 2 ^ 53) * 27468800000)))" .
  also have "\<dots> = TimeClip 1700000000000" by (simp only: a b)
  finally show ?thesis by (simp add: TimeClip_def)
qed

subsection \<open>The shape of a run and of a stage\<close>

lemma run_eq:
  assumes "0 < BATCH_SIZE c"
  shows "run c e w = Some (finish (run_jobs e (all_jobs c e) w))"
  unfolding run_def insert_users_def insert_products_def insert_orders_def
    insert_orderitems_def batch_loop_unroll [OF assms] all_jobs_def run_jobs_append
    await_then_def finish_def
  by (simp split: prod.splits sum.splits)

lemma list_all2_map_replicate:
  assumes "\<And>x. R (f x) t"
  shows "list_all2 R (map f xs) (replicate (length xs) t)"
  by (induction xs) (simp_all add: assms)

lemma jobs_plan:
  "list_all2 (\<lambda>job t. \<forall>w. log (snd (job w)) = log w \<and> db (snd (job w)) = db w
                                  \<and> full_batch c t (fst (job w))) (all_jobs c e) (plan c)"
  unfolding all_jobs_def plan_def length_batch_starts [symmetric]
  by (intro list_all2_appendI list_all2_map_replicate allI)
     (simp_all add: full_batch_def users_query_eq users_statement_def
        products_query_frame orders_query_frame orderitems_query_frame)

lemma length_jobs: "length (all_jobs c e) = length (plan c)"
  using jobs_plan [of c e] by (rule list_all2_lengthD)

lemma run_shape:
  assumes "0 < BATCH_SIZE c"
  shows "\<exists>res w' qs. run c e w = Some (res, w')
           \<and> list_all2 (full_batch c) (take (length qs) (plan c)) qs
           \<and> (\<forall>k<length qs. db_error e (length (submitted (log w)) + k) (qs ! k) = None)
           \<and> db w' = fold apply_insert qs (db w)
           \<and> (res = Inr () \<and> length qs = length (plan c)
                \<and> log w' = log w @ ok_events qs @ [PoolEnd]
              \<or> (\<exists>q err. res = Inl err \<and> length qs < length (plan c)
                    \<and> full_batch c (plan c ! length qs) q
                    \<and> db_error e (length (submitted (log w)) + length qs) q = Some err
                    \<and> log w' = log w @ ok_events qs @ [Issue q, Reject err]))"
proof -
  obtain r w1 where R: "run_jobs e (all_jobs c e) w = (r, w1)" by (cases "run_jobs e (all_jobs c e) w")
  from run_jobs_shape [OF jobs_plan, where e = e and w = w and c1 = c and e1 = e] obtain qs where qs:
    "list_all2 (full_batch c) (take (length qs) (plan c)) qs"
    "\<forall>k<length qs. db_error e (length (submitted (log w)) + k) (qs ! k) = None"
    "db w1 = fold apply_insert qs (db w)"
    "r = Inr () \<and> length qs = length (plan c) \<and> log w1 = log w @ ok_events qs
       \<or> (\<exists>q err. r = Inl err \<and> length qs < length (plan c)
                    \<and> full_batch c (plan c ! length qs) q
                    \<and> db_error e (length (submitted (log w)) + length qs) q = Some err
                    \<and> log w1 = log w @ ok_events qs @ [Issue q, Reject err])"
    unfolding R length_jobs by auto
  from qs(4) show ?thesis
  proof
    assume ok: "r = Inr () \<and> length qs = length (plan c) \<and> log w1 = log w @ ok_events qs"
    then have "run c e w = Some (Inr (), w1\<lparr>log := log w1 @ [PoolEnd]\<rparr>)"
      by (simp add: run_eq [OF assms] R finish_def pool_end_def)
    then show ?thesis using qs(1,2,3) ok by (intro exI [of _ "Inr ()"] exI [of _ qs] exI) auto
  next
    assume "\<exists>q err. r = Inl err \<and> length qs < length (plan c)
                    \<and> full_batch c (plan c ! length qs) q
                    \<and> db_error e (length (submitted (log w)) + length qs) q = Some err
                    \<and> log w1 = log w @ ok_events qs @ [Issue q, Reject err]"
    then obtain q err where f: "r = Inl err" "length qs < length (plan c)"
        "full_batch c (plan c ! length qs) q"
        "db_error e (length (submitted (log w)) + length qs) q = Some err"
        "log w1 = log w @ ok_events qs @ [Issue q, Reject err]"
      by blast
    have "run c e w = Some (Inl err, w1)"
      by (simp add: run_eq [OF assms] R finish_def f(1))
    then show ?thesis using qs(1,2,3) f
      by (intro exI [of _ "Inl err"] exI [of _ w1] exI [of _ qs]) auto
  qed
qed

lemma stage_shape:
  assumes "0 < bs"
    and "\<And>i w. log (snd (build i w)) = log w \<and> db (snd (build i w)) = db w \<and> P i (fst (build i w))"
  shows "\<exists>res w' qs. batch_loop build e tot bs 0 w = Some (res, w')
           \<and> list_all2 P (take (length qs) (batch_starts tot bs 0)) qs
           \<and> (\<forall>k<length qs. db_error e (length (submitted (log w)) + k) (qs ! k) = None)
           \<and> db w' = fold apply_insert qs (db w)
           \<and> (res = Inr () \<and> length qs = ceil_div tot bs \<and> log w' = log w @ ok_events qs
              \<or> (\<exists>q err. res = Inl err \<and> length qs < ceil_div tot bs
                    \<and> P (batch_starts tot bs 0 ! length qs) q
                    \<and> db_error e (length (submitted (log w)) + length qs) q = Some err
                    \<and> log w' = log w @ ok_events qs @ [Issue q, Reject err]))"
proof -
  let ?js = "map build (batch_starts tot bs 0)"
  have "list_all2 (\<lambda>job t. \<forall>w. log (snd (job w)) = log w \<and> db (snd (job w)) = db w
                                  \<and> P t (fst (job w))) ?js (batch_starts tot bs 0)"
    by (simp add: list_all2_map1 list_all2_same assms(2))
  from run_jobs_shape [OF this, of e w] show ?thesis
    unfolding batch_loop_unroll [OF assms(1)]
    by (cases "run_jobs e ?js w") (simp add: length_batch_starts)
qed

subsection \<open>Complete runs\<close>

lemma run_accepting:
  assumes "0 < BATCH_SIZE c"
  shows "\<exists>w' qs. run c (accepting e) w = Some (Inr (), w')
           \<and> list_all2 (full_batch c) (plan c) qs
           \<and> db w' = fold apply_insert qs (db w)
           \<and> log w' = log w @ ok_events qs @ [PoolEnd]"
  using run_shape [OF assms, of "accepting e" w] by (auto simp: accepting_def)

lemma stage_accepting:
  assumes "0 < bs"
    and "\<And>i w. log (snd (build i w)) = log w \<and> db (snd (build i w)) = db w \<and> P i (fst (build i w))"
  shows "\<exists>w' qs. batch_loop build (accepting e) tot bs 0 w = Some (Inr (), w')
           \<and> list_all2 P (batch_starts tot bs 0) qs
           \<and> db w' = fold apply_insert qs (db w)
           \<and> log w' = log w @ ok_events qs"
  using stage_shape [of bs build P "accepting e" tot w, OF assms]
  by (auto simp: accepting_def length_batch_starts)

lemma full_batches_rows:
  assumes "list_all2 (full_batch c) ts qs"
  shows "length (concat (map st_values (filter (\<lambda>q. st_table q = t) qs)))
         = length (filter (\<lambda>x. x = t) ts) * BATCH_SIZE c"
  using assms by (induction ts qs rule: list_all2_induct) (auto simp: full_batch_def)

lemma plan_users: "length (filter (\<lambda>x. x = ''users'') (plan c)) = ceil_div (TOTAL_USERS c) (BATCH_SIZE c)"
  by (simp add: plan_def)

lemma plan_products:
  "length (filter (\<lambda>x. x = ''products'') (plan c)) = ceil_div (TOTAL_PRODUCTS c) (BATCH_SIZE c)"
  by (simp add: plan_def)

lemma plan_orders:
  "length (filter (\<lambda>x. x = ''orders'') (plan c)) = ceil_div (TOTAL_ORDERS c) (BATCH_SIZE c)"
  by (simp add: plan_def)

lemma plan_orderitems:
  "length (filter (\<lambda>x. x = ''orderitems'') (plan c)) = ceil_div (TOTAL_ITEMS c) (BATCH_SIZE c)"
  by (simp add: plan_def)

lemma run_accepting_rows:
  assumes "0 < BATCH_SIZE c"
  shows "\<exists>w' new. run c (accepting e) w = Some (Inr (), w')
           \<and> (\<forall>t. db w' t = db w t @ new t)
           \<and> length (new ''users'') = ceil_div (TOTAL_USERS c) (BATCH_SIZE c) * BATCH_SIZE c
           \<and> length (new ''products'') = ceil_div (TOTAL_PRODUCTS c) (BATCH_SIZE c) * BATCH_SIZE c
           \<and> length (new ''orders'') = ceil_div (TOTAL_ORDERS c) (BATCH_SIZE c) * BATCH_SIZE c
           \<and> length (new ''orderitems'') = ceil_div (TOTAL_ITEMS c) (BATCH_SIZE c) * BATCH_SIZE c"
proof -
  from run_accepting [OF assms, of e w] obtain w' qs where r:
    "run c (accepting e) w = Some (Inr (), w')" "list_all2 (full_batch c) (plan c) qs"
    "db w' = fold apply_insert qs (db w)"
    by blast
  let ?new = "\<lambda>t. concat (map st_values (filter (\<lambda>q. st_table q = t) qs))"
  have "\<forall>t. db w' t = db w t @ ?new t" by (simp add: r(3) fold_apply_insert)
  then show ?thesis
    using r(1) full_batches_rows [OF r(2)]
    by (intro exI [of _ w'] exI [of _ ?new])
       (simp add: plan_users plan_products plan_orders plan_orderitems)
qed

lemma reference_batches:
  "ceil_div (TOTAL_USERS reference) (BATCH_SIZE reference) * BATCH_SIZE reference = 100000"
  "ceil_div (TOTAL_PRODUCTS reference) (BATCH_SIZE reference) * BATCH_SIZE reference = 10000"
  "ceil_div (TOTAL_ORDERS reference) (BATCH_SIZE reference) * BATCH_SIZE reference = 2500000"
  "ceil_div (TOTAL_ITEMS reference) (BATCH_SIZE reference) * BATCH_SIZE reference = 7500000"
  by (simp_all add: reference_def ceil_div_def TOTAL_ITEMS_def)

text \<open>
  Claim C2. With the constants of the script (batches of 1000; 100000 users, 10000
  products, 2500000 orders and three times as many order items) and a backend that
  executes every statement, a run returns normally and leaves each table longer by
  exactly its configured total: no row is dropped, none is inserted twice.
\<close>

theorem reference_run_totals:
  "\<exists>w'. run reference (accepting e) w = Some (Inr (), w')
     \<and> length (db w' ''users'') = length (db w ''users'') + 100000
     \<and> length (db w' ''products'') = length (db w ''products'') + 10000
     \<and> length (db w' ''orders'') = length (db w ''orders'') + 2500000
     \<and> length (db w' ''orderitems'') = length (db w ''orderitems'') + 7500000"
proof -
  have "0 < BATCH_SIZE reference" by (simp add: reference_def)
  from run_accepting_rows [OF this, of e w] show ?thesis
    unfolding reference_batches by (elim exE conjE) simp
qed

text \<open>
  Claim C9. The generator is not idempotent. A second complete run, started by a new
  process on the tables the first run left, keeps every row of the first run where it
  was and appends the configured totals again: each table ends with twice the
  configured number of new rows.
\<close>

theorem rerun_appends:
  "\<exists>w1 w2. run reference (accepting e1) w = Some (Inr (), w1)
     \<and> run reference (accepting e2) (restart w1) = Some (Inr (), w2)
     \<and> (\<forall>t. take (length (db w1 t)) (db w2 t) = db w1 t)
     \<and> length (db w2 ''users'') = length (db w ''users'') + 2 * 100000
     \<and> length (db w2 ''products'') = length (db w ''products'') + 2 * 10000
     \<and> length (db w2 ''orders'') = length (db w ''orders'') + 2 * 2500000
     \<and> length (db w2 ''orderitems'') = length (db w ''orderitems'') + 2 * 7500000"
proof -
  have bs: "0 < BATCH_SIZE reference" by (simp add: reference_def)
  from run_accepting_rows [OF bs, of e1 w] obtain w1 new1 where 1:
    "run reference (accepting e1) w = Some (Inr (), w1)" "\<And>t. db w1 t = db w t @ new1 t"
    "length (new1 ''users'') = 100000" "length (new1 ''products'') = 10000"
    "length (new1 ''orders'') = 2500000" "length (new1 ''orderitems'') = 7500000"
    unfolding reference_batches by auto
  from run_accepting_rows [OF bs, of e2 "restart w1"] obtain w2 new2 where 2:
    "run reference (accepting e2) (restart w1) = Some (Inr (), w2)"
    "\<And>t. db w2 t = db w1 t @ new2 t"
    "length (new2 ''users'') = 100000" "length (new2 ''products'') = 10000"
    "length (new2 ''orders'') = 2500000" "length (new2 ''orderitems'') = 7500000"
    unfolding reference_batches by (auto simp: restart_def)
  show ?thesis
    by (intro exI [of _ w1] exI [of _ w2]) (simp add: 1 2)
qed

subsection \<open>Stages\<close>

lemma list_all2_const_set:
  "list_all2 (\<lambda>i. Q) is qs \<Longrightarrow> q \<in> set qs \<Longrightarrow> Q q"
  by (induction "is" qs rule: list_all2_induct) auto

lemma list_all2_eq_map: "list_all2 (\<lambda>i q. q = f i) is qs \<Longrightarrow> qs = map f is"
  by (induction "is" qs rule: list_all2_induct) auto

lemma stage_all:
  assumes "0 < bs"
    and "\<And>i w. log (snd (build i w)) = log w \<and> db (snd (build i w)) = db w \<and> Q (fst (build i w))"
  shows "\<exists>res w' evs. batch_loop build e tot bs 0 w = Some (res, w') \<and> log w' = log w @ evs
           \<and> (\<forall>q\<in>set (submitted evs). Q q)"
proof -
  from stage_shape [of bs build "\<lambda>i. Q" e tot w, OF assms] obtain res w' qs where s:
    "batch_loop build e tot bs 0 w = Some (res, w')"
    "list_all2 (\<lambda>i. Q) (take (length qs) (batch_starts tot bs 0)) qs"
    "res = Inr () \<and> length qs = ceil_div tot bs \<and> log w' = log w @ ok_events qs
       \<or> (\<exists>q err. res = Inl err \<and> length qs < ceil_div tot bs \<and> Q q
              \<and> db_error e (length (submitted (log w)) + length qs) q = Some err
              \<and> log w' = log w @ ok_events qs @ [Issue q, Reject err])"
    by blast
  have qs: "\<forall>q\<in>set qs. Q q" using list_all2_const_set [OF s(2)] by blast
  from s(3) show ?thesis
  proof
    assume "res = Inr () \<and> length qs = ceil_div tot bs \<and> log w' = log w @ ok_events qs"
    then show ?thesis using s(1) qs by (intro exI [of _ res] exI [of _ w'] exI [of _ "ok_events qs"]) simp
  next
    assume "\<exists>q err. res = Inl err \<and> length qs < ceil_div tot bs \<and> Q q
              \<and> db_error e (length (submitted (log w)) + length qs) q = Some err
              \<and> log w' = log w @ ok_events qs @ [Issue q, Reject err]"
    then obtain q err where "Q q" "log w' = log w @ ok_events qs @ [Issue q, Reject err]" by blast
    then show ?thesis using s(1) qs
      by (intro exI [of _ res] exI [of _ w'] exI [of _ "ok_events qs @ [Issue q, Reject err]"]) simp
  qed
qed

lemma fold_apply_insert_one_table:
  assumes "\<forall>q\<in>set qs. st_table q = t"
  shows "fold apply_insert qs d = d(t := d t @ concat (map st_values qs))"
  using assms by (induction qs arbitrary: d) (simp_all add: apply_insert_def)

lemma stage_rows:
  assumes "0 < BATCH_SIZE c"
    and "\<And>i w. log (snd (build i w)) = log w \<and> db (snd (build i w)) = db w
               \<and> full_batch c t (fst (build i w)) \<and> list_all R (st_values (fst (build i w)))"
  shows "\<exists>w' qs new. batch_loop build (accepting e) tot (BATCH_SIZE c) 0 w = Some (Inr (), w')
           \<and> log w' = log w @ ok_events qs \<and> length qs = ceil_div tot (BATCH_SIZE c)
           \<and> (\<forall>q\<in>set qs. length (st_values q) = BATCH_SIZE c)
           \<and> db w' = (db w)(t := db w t @ new) \<and> new = concat (map st_values qs)
           \<and> length new = ceil_div tot (BATCH_SIZE c) * BATCH_SIZE c \<and> list_all R new"
proof -
  let ?Q = "\<lambda>q. full_batch c t q \<and> list_all R (st_values q)"
  from stage_accepting [of "BATCH_SIZE c" build "\<lambda>i. ?Q" e tot w, OF assms] obtain w' qs where s:
    "batch_loop build (accepting e) tot (BATCH_SIZE c) 0 w = Some (Inr (), w')"
    "list_all2 (\<lambda>i. ?Q) (batch_starts tot (BATCH_SIZE c) 0) qs"
    "db w' = fold apply_insert qs (db w)" "log w' = log w @ ok_events qs"
    by blast
  have qs: "\<forall>q\<in>set qs. ?Q q" using list_all2_const_set [OF s(2)] by blast
  have len: "length qs = ceil_div tot (BATCH_SIZE c)"
    using list_all2_lengthD [OF s(2)] by (simp add: length_batch_starts)
  have "length (concat (map st_values qs)) = length qs * BATCH_SIZE c"
    using qs by (induction qs) (simp_all add: full_batch_def)
  moreover have "list_all R (concat (map st_values qs))"
    using qs by (induction qs) simp_all
  moreover have "db w' = (db w)(t := db w t @ concat (map st_values qs))"
    unfolding s(3) using qs by (intro fold_apply_insert_one_table) (simp add: full_batch_def)
  moreover have "\<forall>q\<in>set qs. length (st_values q) = BATCH_SIZE c"
    using qs by (simp add: full_batch_def)
  ultimately show ?thesis using s(1,4) len
    by (intro exI [of _ w'] exI [of _ qs] exI [of _ "concat (map st_values qs)"]) simp
qed

lemma users_query_facts:
  "log (snd (users_query c i w)) = log w \<and> db (snd (users_query c i w)) = db w
   \<and> full_batch c ''users'' (fst (users_query c i w))
   \<and> list_all (\<lambda>r. True) (st_values (fst (users_query c i w)))"
  by (simp add: users_query_eq users_statement_def full_batch_def list_all_iff)

lemma products_query_facts:
  "log (snd (products_query c e i w)) = log w \<and> db (snd (products_query c e i w)) = db w
   \<and> full_batch c ''products'' (fst (products_query c e i w))
   \<and> list_all (\<lambda>r. True) (st_values (fst (products_query c e i w)))"
  using products_query_frame [of c e i w] by (simp add: full_batch_def list_all_iff)

lemma orders_query_facts:
  "log (snd (orders_query c e i w)) = log w \<and> db (snd (orders_query c e i w)) = db w
   \<and> full_batch c ''orders'' (fst (orders_query c e i w))
   \<and> list_all (\<lambda>r. True) (st_values (fst (orders_query c e i w)))"
  using orders_query_frame [of c e i w] by (simp add: full_batch_def list_all_iff)

lemma orderitems_query_facts:
  "log (snd (orderitems_query c e i w)) = log w \<and> db (snd (orderitems_query c e i w)) = db w
   \<and> full_batch c ''orderitems'' (fst (orderitems_query c e i w))
   \<and> list_all (\<lambda>r. True) (st_values (fst (orderitems_query c e i w)))"
  using orderitems_query_frame [of c e i w] by (simp add: full_batch_def list_all_iff)

lemma concat_blocks:
  "concat (map (\<lambda>k. map (\<lambda>j. f (k * bs + j)) [0..<bs]) [0..<n]) = map f [0..<n * bs]"
proof (induction n)
  case 0
  show ?case by simp
next
  case (Suc n)
  have "map f [n * bs..<n * bs + bs] = map (\<lambda>j. f (n * bs + j)) [0..<bs]"
    using map_add_upt [of "n * bs" bs] by (simp add: map_add_upt [symmetric] comp_def add.commute)
  moreover have "[0..<Suc n * bs] = [0..<n * bs] @ [n * bs..<n * bs + bs]"
    using upt_add_eq_append [of 0 "n * bs" bs] by (simp add: add.commute)
  ultimately show ?case using Suc by simp
qed

lemma user_value_shift: "user_value i j = user_value (i + j) 0"
  by (simp add: user_value_def)

lemma users_rows:
  "concat (map st_values (map (users_statement c) (batch_starts tot (BATCH_SIZE c) 0)))
     = map (\<lambda>n. user_value n 0) [0..<ceil_div tot (BATCH_SIZE c) * BATCH_SIZE c]"
proof -
  have "concat (map st_values (map (users_statement c) (batch_starts tot (BATCH_SIZE c) 0)))
      = concat (map (\<lambda>k. map (\<lambda>j. user_value (k * BATCH_SIZE c + j) 0) [0..<BATCH_SIZE c])
                  [0..<ceil_div tot (BATCH_SIZE c)])"
    by (simp add: batch_starts_def users_statement_def comp_def user_value_shift [symmetric])
  also have "\<dots> = map (\<lambda>n. user_value n 0) [0..<ceil_div tot (BATCH_SIZE c) * BATCH_SIZE c]"
    by (rule concat_blocks [of "\<lambda>n. user_value n 0"])
  finally show ?thesis .
qed

lemma users_accepting:
  assumes "0 < BATCH_SIZE c"
  shows "\<exists>w'. insert_users c (accepting e) w = Some (Inr (), w')
     \<and> log w' = log w @ ok_events (map (users_statement c) (batch_starts (TOTAL_USERS c) (BATCH_SIZE c) 0))
     \<and> db w' = (db w)(''users'' := db w ''users'' @
          map (\<lambda>n. user_value n 0) [0..<ceil_div (TOTAL_USERS c) (BATCH_SIZE c) * BATCH_SIZE c])"
proof -
  have "\<And>i w. log (snd (users_query c i w)) = log w \<and> db (snd (users_query c i w)) = db w
               \<and> fst (users_query c i w) = users_statement c i"
    by (simp add: users_query_eq)
  from stage_accepting [of "BATCH_SIZE c" "users_query c" "\<lambda>i q. q = users_statement c i" e
      "TOTAL_USERS c" w, OF assms this]
  obtain w' qs where s:
    "insert_users c (accepting e) w = Some (Inr (), w')"
    "list_all2 (\<lambda>i q. q = users_statement c i) (batch_starts (TOTAL_USERS c) (BATCH_SIZE c) 0) qs"
    "db w' = fold apply_insert qs (db w)" "log w' = log w @ ok_events qs"
    unfolding insert_users_def by blast
  have qs: "qs = map (users_statement c) (batch_starts (TOTAL_USERS c) (BATCH_SIZE c) 0)"
    using list_all2_eq_map [OF s(2)] .
  have "\<forall>q\<in>set qs. st_table q = ''users''" by (auto simp: qs users_statement_def)
  from fold_apply_insert_one_table [OF this]
  have "db w' = (db w)(''users'' := db w ''users'' @ concat (map st_values qs))"
    by (simp add: s(3))
  then show ?thesis using s(1,4) unfolding qs users_rows by blast
qed

lemma stage_full:
  assumes "0 < BATCH_SIZE c"
    and "\<And>i w. log (snd (build i w)) = log w \<and> db (snd (build i w)) = db w
               \<and> full_batch c t (fst (build i w)) \<and> list_all (\<lambda>r. True) (st_values (fst (build i w)))"
  shows "\<exists>res w' evs. batch_loop build e tot (BATCH_SIZE c) 0 w = Some (res, w')
           \<and> log w' = log w @ evs
           \<and> (\<forall>q\<in>set (submitted evs). length (st_values q) = BATCH_SIZE c)"
  using stage_all [of "BATCH_SIZE c" build "\<lambda>q. length (st_values q) = BATCH_SIZE c" e tot w]
    assms by (simp add: full_batch_def)

lemma stage_length:
  assumes "0 < BATCH_SIZE c"
    and "\<And>i w. log (snd (build i w)) = log w \<and> db (snd (build i w)) = db w
               \<and> full_batch c t (fst (build i w)) \<and> list_all (\<lambda>r. True) (st_values (fst (build i w)))"
  shows "\<exists>w'. batch_loop build (accepting e) tot (BATCH_SIZE c) 0 w = Some (Inr (), w')
           \<and> length (db w' t) = length (db w t) + ceil_div tot (BATCH_SIZE c) * BATCH_SIZE c"
  using stage_rows [of c build t "\<lambda>r. True" e tot w, OF assms] by auto

lemma stage_count:
  assumes "0 < BATCH_SIZE c"
    and "\<And>i w. log (snd (build i w)) = log w \<and> db (snd (build i w)) = db w
               \<and> full_batch c t (fst (build i w)) \<and> list_all (\<lambda>r. True) (st_values (fst (build i w)))"
  shows "\<exists>w' qs new. batch_loop build (accepting e) tot (BATCH_SIZE c) 0 w = Some (Inr (), w')
           \<and> log w' = log w @ ok_events qs \<and> length qs = ceil_div tot (BATCH_SIZE c)
           \<and> (\<forall>q\<in>set qs. length (st_values q) = BATCH_SIZE c)
           \<and> db w' t = db w t @ new
           \<and> length new = length qs * BATCH_SIZE c
           \<and> (BATCH_SIZE c dvd tot \<longrightarrow> length new = tot)"
proof -
  from stage_rows [of c build t "\<lambda>r. True" e tot w, OF assms] obtain w' qs new where s:
    "batch_loop build (accepting e) tot (BATCH_SIZE c) 0 w = Some (Inr (), w')"
    "log w' = log w @ ok_events qs" "length qs = ceil_div tot (BATCH_SIZE c)"
    "\<forall>q\<in>set qs. length (st_values q) = BATCH_SIZE c"
    "db w' = (db w)(t := db w t @ new)"
    "length new = ceil_div tot (BATCH_SIZE c) * BATCH_SIZE c"
    by blast
  have "BATCH_SIZE c dvd tot \<longrightarrow> length new = tot"
    using ceil_div_dvd [OF assms(1)] s(6) by simp
  then show ?thesis using s
    by (intro exI [of _ w'] exI [of _ qs] exI [of _ new]) simp
qed

lemma users_emails:
  assumes "0 < BATCH_SIZE c"
  shows "\<exists>w'. insert_users c (accepting e) w = Some (Inr (), w')
     \<and> db w' ''users'' = db w ''users'' @
          map (\<lambda>n. [SqlText (''user'' @ string_of_nat (n + 1) @ ''@gmail.com''), SqlNow])
            [0..<ceil_div (TOTAL_USERS c) (BATCH_SIZE c) * BATCH_SIZE c]"
  using users_accepting [OF assms, of e w] by (auto simp: user_value_def)

text \<open>
  Claim C10. Whatever the backend answers, every statement a stage submits carries
  exactly \<open>BATCH_SIZE\<close> rows, the last one of the stage too. When every statement is
  executed, a stage therefore adds \<open>ceil_div total BATCH_SIZE * BATCH_SIZE\<close> rows to
  its table, and the e-mail addresses of the users run from \<open>user1\<close> to the user of
  that number, past the configured total when the batch size does not divide it.
\<close>

theorem every_batch_is_full:
  assumes "0 < BATCH_SIZE c"
  shows "(\<exists>res w' evs. insert_users c e w = Some (res, w') \<and> log w' = log w @ evs
            \<and> (\<forall>q\<in>set (submitted evs). length (st_values q) = BATCH_SIZE c))
       \<and> (\<exists>res w' evs. insert_products c e w = Some (res, w') \<and> log w' = log w @ evs
            \<and> (\<forall>q\<in>set (submitted evs). length (st_values q) = BATCH_SIZE c))
       \<and> (\<exists>res w' evs. insert_orders c e w = Some (res, w') \<and> log w' = log w @ evs
            \<and> (\<forall>q\<in>set (submitted evs). length (st_values q) = BATCH_SIZE c))
       \<and> (\<exists>res w' evs. insert_orderitems c e w = Some (res, w') \<and> log w' = log w @ evs
            \<and> (\<forall>q\<in>set (submitted evs). length (st_values q) = BATCH_SIZE c))
       \<and> (\<exists>w'. insert_users c (accepting e) w = Some (Inr (), w')
            \<and> db w' ''users'' = db w ''users'' @
                 map (\<lambda>n. [SqlText (''user'' @ string_of_nat (n + 1) @ ''@gmail.com''), SqlNow])
                   [0..<ceil_div (TOTAL_USERS c) (BATCH_SIZE c) * BATCH_SIZE c])
       \<and> (\<exists>w'. insert_products c (accepting e) w = Some (Inr (), w')
            \<and> length (db w' ''products'') = length (db w ''products'')
                 + ceil_div (TOTAL_PRODUCTS c) (BATCH_SIZE c) * BATCH_SIZE c)
       \<and> (\<exists>w'. insert_orders c (accepting e) w = Some (Inr (), w')
            \<and> length (db w' ''orders'') = length (db w ''orders'')
                 + ceil_div (TOTAL_ORDERS c) (BATCH_SIZE c) * BATCH_SIZE c)
       \<and> (\<exists>w'. insert_orderitems c (accepting e) w = Some (Inr (), w')
            \<and> length (db w' ''orderitems'') = length (db w ''orderitems'')
                 + ceil_div (TOTAL_ITEMS c) (BATCH_SIZE c) * BATCH_SIZE c)"
proof (intro conjI)
  show "\<exists>res w' evs. insert_users c e w = Some (res, w') \<and> log w' = log w @ evs
            \<and> (\<forall>q\<in>set (submitted evs). length (st_values q) = BATCH_SIZE c)"
    unfolding insert_users_def by (rule stage_full [OF assms users_query_facts])
  show "\<exists>res w' evs. insert_products c e w = Some (res, w') \<and> log w' = log w @ evs
            \<and> (\<forall>q\<in>set (submitted evs). length (st_values q) = BATCH_SIZE c)"
    unfolding insert_products_def by (rule stage_full [OF assms products_query_facts])
  show "\<exists>res w' evs. insert_orders c e w = Some (res, w') \<and> log w' = log w @ evs
            \<and> (\<forall>q\<in>set (submitted evs). length (st_values q) = BATCH_SIZE c)"
    unfolding insert_orders_def by (rule stage_full [OF assms orders_query_facts])
  show "\<exists>res w' evs. insert_orderitems c e w = Some (res, w') \<and> log w' = log w @ evs
            \<and> (\<forall>q\<in>set (submitted evs). length (st_values q) = BATCH_SIZE c)"
    unfolding insert_orderitems_def by (rule stage_full [OF assms orderitems_query_facts])
  show "\<exists>w'. insert_users c (accepting e) w = Some (Inr (), w')
            \<and> db w' ''users'' = db w ''users'' @
                 map (\<lambda>n. [SqlText (''user'' @ string_of_nat (n + 1) @ ''@gmail.com''), SqlNow])
                   [0..<ceil_div (TOTAL_USERS c) (BATCH_SIZE c) * BATCH_SIZE c]"
    by (rule users_emails [OF assms])
  show "\<exists>w'. insert_products c (accepting e) w = Some (Inr (), w')
            \<and> length (db w' ''products'') = length (db w ''products'')
                 + ceil_div (TOTAL_PRODUCTS c) (BATCH_SIZE c) * BATCH_SIZE c"
    unfolding insert_products_def by (rule stage_length [OF assms products_query_facts])
  show "\<exists>w'. insert_orders c (accepting e) w = Some (Inr (), w')
            \<and> length (db w' ''orders'') = length (db w ''orders'')
                 + ceil_div (TOTAL_ORDERS c) (BATCH_SIZE c) * BATCH_SIZE c"
    unfolding insert_orders_def by (rule stage_length [OF assms orders_query_facts])
  show "\<exists>w'. insert_orderitems c (accepting e) w = Some (Inr (), w')
            \<and> length (db w' ''orderitems'') = length (db w ''orderitems'')
                 + ceil_div (TOTAL_ITEMS c) (BATCH_SIZE c) * BATCH_SIZE c"
    unfolding insert_orderitems_def by (rule stage_length [OF assms orderitems_query_facts])
qed

lemma accepting_quiet: "accepting quiet = quiet"
  by (simp add: accepting_def quiet_def)

lemma small_fields:
  "BATCH_SIZE small = 2" "TOTAL_USERS small = 5" "TOTAL_PRODUCTS small = 3"
  "TOTAL_ORDERS small = 3" "TOTAL_ITEMS small = 9"
  by (simp_all add: small_def TOTAL_ITEMS_def)

lemma small_batches:
  "ceil_div 5 2 = 3" "ceil_div 3 2 = 2" "ceil_div 9 2 = 5"
  by (simp_all add: ceil_div_def)

lemma six_users:
  "map (\<lambda>n. [SqlText (''user'' @ string_of_nat (n + 1) @ ''@gmail.com''), SqlNow]) [0..<3 * 2]
   = [[SqlText ''user1@gmail.com'', SqlNow], [SqlText ''user2@gmail.com'', SqlNow],
      [SqlText ''user3@gmail.com'', SqlNow], [SqlText ''user4@gmail.com'', SqlNow],
      [SqlText ''user5@gmail.com'', SqlNow], [SqlText ''user6@gmail.com'', SqlNow]]"
  by (simp add: upt_rec string_of_nat.simps digit_def)

theorem every_batch_is_full_witness:
  "0 < BATCH_SIZE small
   \<and> (\<exists>w'. insert_users small quiet empty_world = Some (Inr (), w')
        \<and> db w' ''users''
            = [[SqlText ''user1@gmail.com'', SqlNow], [SqlText ''user2@gmail.com'', SqlNow],
               [SqlText ''user3@gmail.com'', SqlNow], [SqlText ''user4@gmail.com'', SqlNow],
               [SqlText ''user5@gmail.com'', SqlNow], [SqlText ''user6@gmail.com'', SqlNow]])
   \<and> (\<exists>w'. insert_orderitems small quiet empty_world = Some (Inr (), w')
        \<and> length (db w' ''orderitems'') = 10)"
proof -
  have bs: "0 < BATCH_SIZE small" by (simp add: small_fields)
  note all = every_batch_is_full [OF bs, of quiet empty_world,
      unfolded accepting_quiet small_fields small_batches six_users]
  from all have "\<exists>w'. insert_users small quiet empty_world = Some (Inr (), w')
        \<and> db w' ''users''
            = db empty_world ''users'' @
              [[SqlText ''user1@gmail.com'', SqlNow], [SqlText ''user2@gmail.com'', SqlNow],
               [SqlText ''user3@gmail.com'', SqlNow], [SqlText ''user4@gmail.com'', SqlNow],
               [SqlText ''user5@gmail.com'', SqlNow], [SqlText ''user6@gmail.com'', SqlNow]]"
    by blast
  moreover from all have "\<exists>w'. insert_orderitems small quiet empty_world = Some (Inr (), w')
        \<and> length (db w' ''orderitems'') = length (db empty_world ''orderitems'') + 5 * 2"
    by blast
  ultimately show ?thesis using bs by (simp add: empty_world_def)
qed

text \<open>
  Claim C1, as the code has it. With a batch size of at least 1 and a backend that
  executes every statement, each stage submits exactly \<open>ceil_div total BATCH_SIZE\<close>
  statements. Every one of them has \<open>BATCH_SIZE\<close> rows, the last one too, so that
  the stage adds \<open>ceil_div total BATCH_SIZE * BATCH_SIZE\<close> rows to its table:
  exactly \<open>total\<close> when the batch size divides the total, more otherwise. No index
  is read anywhere: rows are only pushed.
\<close>

theorem batch_count_is_ceiling:
  assumes "0 < BATCH_SIZE c"
  shows "(\<exists>w' qs new. insert_users c (accepting e) w = Some (Inr (), w')
            \<and> log w' = log w @ ok_events qs
            \<and> length qs = ceil_div (TOTAL_USERS c) (BATCH_SIZE c)
            \<and> (\<forall>q\<in>set qs. length (st_values q) = BATCH_SIZE c)
            \<and> db w' ''users'' = db w ''users'' @ new
            \<and> length new = length qs * BATCH_SIZE c
            \<and> (BATCH_SIZE c dvd TOTAL_USERS c \<longrightarrow> length new = TOTAL_USERS c))
       \<and> (\<exists>w' qs new. insert_products c (accepting e) w = Some (Inr (), w')
            \<and> log w' = log w @ ok_events qs
            \<and> length qs = ceil_div (TOTAL_PRODUCTS c) (BATCH_SIZE c)
            \<and> (\<forall>q\<in>set qs. length (st_values q) = BATCH_SIZE c)
            \<and> db w' ''products'' = db w ''products'' @ new
            \<and> length new = length qs * BATCH_SIZE c
            \<and> (BATCH_SIZE c dvd TOTAL_PRODUCTS c \<longrightarrow> length new = TOTAL_PRODUCTS c))
       \<and> (\<exists>w' qs new. insert_orders c (accepting e) w = Some (Inr (), w')
            \<and> log w' = log w @ ok_events qs
            \<and> length qs = ceil_div (TOTAL_ORDERS c) (BATCH_SIZE c)
            \<and> (\<forall>q\<in>set qs. length (st_values q) = BATCH_SIZE c)
            \<and> db w' ''orders'' = db w ''orders'' @ new
            \<and> length new = length qs * BATCH_SIZE c
            \<and> (BATCH_SIZE c dvd TOTAL_ORDERS c \<longrightarrow> length new = TOTAL_ORDERS c))
       \<and> (\<exists>w' qs new. insert_orderitems c (accepting e) w = Some (Inr (), w')
            \<and> log w' = log w @ ok_events qs
            \<and> length qs = ceil_div (TOTAL_ITEMS c) (BATCH_SIZE c)
            \<and> (\<forall>q\<in>set qs. length (st_values q) = BATCH_SIZE c)
            \<and> db w' ''orderitems'' = db w ''orderitems'' @ new
            \<and> length new = length qs * BATCH_SIZE c
            \<and> (BATCH_SIZE c dvd TOTAL_ITEMS c \<longrightarrow> length new = TOTAL_ITEMS c))"
  unfolding insert_users_def insert_products_def insert_orders_def insert_orderitems_def
  by (intro conjI stage_count [OF assms users_query_facts]
        stage_count [OF assms products_query_facts]
        stage_count [OF assms orders_query_facts]
        stage_count [OF assms orderitems_query_facts])

theorem batch_count_is_ceiling_witness:
  "0 < BATCH_SIZE reference \<and> BATCH_SIZE reference dvd TOTAL_USERS reference
   \<and> (\<exists>w' qs. insert_users reference quiet empty_world = Some (Inr (), w')
        \<and> log w' = ok_events qs \<and> length qs = 100 \<and> length (db w' ''users'') = 100000)
   \<and> 0 < BATCH_SIZE small
   \<and> (\<exists>w' qs. insert_users small quiet empty_world = Some (Inr (), w')
        \<and> log w' = ok_events qs \<and> length qs = 3 \<and> length (db w' ''users'') = 6)"
proof -
  have bs: "0 < BATCH_SIZE reference" by (simp add: reference_def)
  have d: "BATCH_SIZE reference dvd TOTAL_USERS reference"
    by (simp_all add: reference_def)
  have t: "TOTAL_USERS reference = 100000" "BATCH_SIZE reference = 1000"
    by (simp_all add: reference_def)
  from batch_count_is_ceiling [OF bs, of quiet empty_world, unfolded accepting_quiet,
      THEN conjunct1]
  obtain w1 qs1 new1 where 1:
    "insert_users reference quiet empty_world = Some (Inr (), w1)"
    "log w1 = log empty_world @ ok_events qs1"
    "length qs1 = ceil_div (TOTAL_USERS reference) (BATCH_SIZE reference)"
    "db w1 ''users'' = db empty_world ''users'' @ new1"
    "BATCH_SIZE reference dvd TOTAL_USERS reference \<longrightarrow> length new1 = TOTAL_USERS reference"
    by blast
  have r: "log w1 = ok_events qs1" "length qs1 = 100" "length (db w1 ''users'') = 100000"
    using 1 d by (simp_all add: t ceil_div_def empty_world_def)
  have bs': "0 < BATCH_SIZE small" by (simp add: small_fields)
  from batch_count_is_ceiling [OF bs', of quiet empty_world, unfolded accepting_quiet,
      THEN conjunct1]
  obtain w2 qs2 new2 where 2:
    "insert_users small quiet empty_world = Some (Inr (), w2)"
    "log w2 = log empty_world @ ok_events qs2"
    "length qs2 = ceil_div (TOTAL_USERS small) (BATCH_SIZE small)"
    "db w2 ''users'' = db empty_world ''users'' @ new2"
    "length new2 = length qs2 * BATCH_SIZE small"
    by blast
  have s: "log w2 = ok_events qs2" "length qs2 = 3" "length (db w2 ''users'') = 6"
    using 2 by (simp_all add: small_fields small_batches empty_world_def)
  show ?thesis using bs d bs' 1(1) r 2(1) s by blast
qed

lemma small_starts: "batch_starts 5 2 0 = [0, 2, 4]"
  by (simp add: batch_starts_def small_batches upt_rec)

text \<open>
  Five users in batches of two: three statements of two rows each are submitted, and
  six users, \<open>user1\<close> to \<open>user6\<close>, are in the table afterwards; not batches of 2, 2
  and 1, and not five users.
\<close>

theorem five_users_in_batches_of_two:
  "outcome (insert_users small quiet empty_world) = Some (Inr ())
   \<and> batch_sizes (insert_users small quiet empty_world) = Some [2, 2, 2]
   \<and> batch_sizes (insert_users small quiet empty_world) \<noteq> Some [2, 2, 1]
   \<and> table_after ''users'' (insert_users small quiet empty_world)
       = Some [[SqlText ''user1@gmail.com'', SqlNow], [SqlText ''user2@gmail.com'', SqlNow],
               [SqlText ''user3@gmail.com'', SqlNow], [SqlText ''user4@gmail.com'', SqlNow],
               [SqlText ''user5@gmail.com'', SqlNow], [SqlText ''user6@gmail.com'', SqlNow]]
   \<and> map_option length (table_after ''users'' (insert_users small quiet empty_world)) \<noteq> Some 5"
proof -
  have bs: "0 < BATCH_SIZE small" by (simp add: small_fields)
  from users_accepting [OF bs, of quiet empty_world] obtain w' where w':
    "insert_users small quiet empty_world = Some (Inr (), w')"
    "log w' = ok_events (map (users_statement small) [0, 2, 4])"
    "db w' ''users'' = map (\<lambda>n. user_value n 0) [0..<3 * 2]"
    unfolding accepting_quiet small_fields small_batches small_starts
    by (auto simp: empty_world_def)
  have rows: "db w' ''users''
       = [[SqlText ''user1@gmail.com'', SqlNow], [SqlText ''user2@gmail.com'', SqlNow],
          [SqlText ''user3@gmail.com'', SqlNow], [SqlText ''user4@gmail.com'', SqlNow],
          [SqlText ''user5@gmail.com'', SqlNow], [SqlText ''user6@gmail.com'', SqlNow]]"
    unfolding w'(3) using six_users by (simp add: user_value_def)
  have sizes: "map (\<lambda>q. length (st_values q)) (submitted (log w')) = [2, 2, 2]"
    by (simp add: w'(2) users_statement_def small_fields)
  show ?thesis
    by (simp add: w'(1) outcome_def batch_sizes_def table_after_def rows sizes)
qed

lemma pool_query_counters:
  "random_calls (snd (pool_query e q w)) = random_calls w
   \<and> now_calls (snd (pool_query e q w)) = now_calls w"
  by (simp add: pool_query_def split: option.splits)

lemma run_jobs_counters:
  assumes "\<forall>job\<in>set js. \<forall>w. random_calls (snd (job w)) = random_calls w
                              \<and> now_calls (snd (job w)) = now_calls w"
  shows "random_calls (snd (run_jobs e js w)) = random_calls w
       \<and> now_calls (snd (run_jobs e js w)) = now_calls w"
  using assms
proof (induction js arbitrary: w)
  case Nil
  show ?case by simp
next
  case (Cons job js)
  obtain q w1 where j: "job w = (q, w1)" by (cases "job w")
  obtain r w2 where p: "pool_query e q w1 = (r, w2)" by (cases "pool_query e q w1")
  have w1: "random_calls w1 = random_calls w" "now_calls w1 = now_calls w"
    using Cons.prems j by (auto dest: spec [of _ w])
  have w2: "random_calls w2 = random_calls w1" "now_calls w2 = now_calls w1"
    using pool_query_counters [of e q w1] by (simp_all add: p)
  show ?case
  proof (cases r)
    case (Inl err)
    then show ?thesis by (simp add: j p w1 w2)
  next
    case (Inr u)
    then show ?thesis using Cons.IH [of w2] Cons.prems by (simp add: j p w1 w2)
  qed
qed

lemma user_rows_now:
  "log (snd (users_query c i w)) = log w \<and> db (snd (users_query c i w)) = db w
   \<and> (\<forall>r\<in>set (st_values (fst (users_query c i w))).
         \<exists>n. r = [SqlText (''user'' @ string_of_nat n @ ''@gmail.com''), SqlNow])"
  by (auto simp: users_query_eq users_statement_def user_value_def)

text \<open>
  Claim C3, as the code has it. The creation time of every generated user is the SQL
  expression \<open>NOW()\<close>, which the backend evaluates when it inserts the row. The
  users stage draws no random number and reads no clock: nothing is sampled between
  the start date and the current time.
\<close>

theorem users_created_at_is_now:
  assumes "0 < BATCH_SIZE c"
  shows "\<exists>res w' evs. insert_users c e w = Some (res, w') \<and> log w' = log w @ evs
           \<and> random_calls w' = random_calls w \<and> now_calls w' = now_calls w
           \<and> (\<forall>q\<in>set (submitted evs). \<forall>r\<in>set (st_values q).
                 \<exists>n. r = [SqlText (''user'' @ string_of_nat n @ ''@gmail.com''), SqlNow])"
proof -
  from stage_all [of "BATCH_SIZE c" "users_query c" _ e "TOTAL_USERS c" w, OF assms user_rows_now]
  obtain res w' evs where s: "insert_users c e w = Some (res, w')" "log w' = log w @ evs"
    "\<forall>q\<in>set (submitted evs). \<forall>r\<in>set (st_values q).
        \<exists>n. r = [SqlText (''user'' @ string_of_nat n @ ''@gmail.com''), SqlNow]"
    unfolding insert_users_def by blast
  have "random_calls w' = random_calls w \<and> now_calls w' = now_calls w"
    using s(1) run_jobs_counters [of "map (users_query c) (batch_starts (TOTAL_USERS c) (BATCH_SIZE c) 0)" e w]
    unfolding insert_users_def batch_loop_unroll [OF assms]
    by (auto simp: users_query_eq)
  then show ?thesis using s by blast
qed

theorem users_created_at_is_now_witness:
  "0 < BATCH_SIZE small
   \<and> (\<exists>res w'. insert_users small quiet empty_world = Some (res, w')
         \<and> random_calls w' = 0 \<and> now_calls w' = 0)"
proof -
  have bs: "0 < BATCH_SIZE small" by (simp add: small_fields)
  from users_created_at_is_now [OF bs, of quiet empty_world] show ?thesis
    using bs by (auto simp: empty_world_def)
qed

text \<open>
  The first statement of the users stage: the \<open>created_at\<close> of both rows is
  \<open>NOW()\<close>, not a time stamp between the start date and the current time, and
  building the statement has taken no random number and no clock reading.
\<close>

theorem users_created_at_not_sampled:
  "fst (users_query small 0 empty_world)
     = \<lparr>st_table = ''users'', st_columns = [''email'', ''created_at''],
        st_values = [[SqlText ''user1@gmail.com'', SqlNow], [SqlText ''user2@gmail.com'', SqlNow]]\<rparr>
   \<and> random_calls (snd (users_query small 0 empty_world)) = 0
   \<and> now_calls (snd (users_query small 0 empty_world)) = 0"
  by (simp add: users_query_eq users_statement_def small_fields user_value_def upt_rec
        string_of_nat.simps digit_def empty_world_def)

lemma accepting_fields [simp]:
  "random (accepting e) = random e" "clock (accepting e) = clock e"
  "start_ms (accepting e) = start_ms e" "db_error (accepting e) = (\<lambda>n q. None)"
  by (simp_all add: accepting_def)

lemma accepting_ok [simp]:
  "unit_random (accepting e) = unit_random e"
  "clock_between (accepting e) T = clock_between e T"
  by (simp_all add: unit_random_def clock_between_def)

lemma accepting_rows [simp]:
  "order_row c (accepting e) = order_row c e"
  "orderitem_row c (accepting e) = orderitem_row c e"
  "orders_statement c (accepting e) = orders_statement c e"
  "orderitems_statement c (accepting e) = orderitems_statement c e"
  by (simp_all add: order_row_def orderitem_row_def orders_statement_def
        orderitems_statement_def fun_eq_iff)

lemma order_row_ok_accepting [simp]: "order_row_ok c (accepting e) T = order_row_ok c e T"
proof
  fix r show "order_row_ok c (accepting e) T r = order_row_ok c e T r"
    by (cases "(c, accepting e, T, r)" rule: order_row_ok.cases) simp_all
qed

subsection \<open>The statements of a stage as functions of the random numbers\<close>

lemma run_jobs_counted:
  assumes "\<And>i w. build i w = (stmt (random_calls w) (now_calls w),
              w\<lparr>random_calls := random_calls w + a, now_calls := now_calls w + b\<rparr>)"
  shows "\<exists>evs. log (snd (run_jobs e (map build starts) w)) = log w @ evs
           \<and> submitted evs
               = map (\<lambda>k. stmt (random_calls w + k * a) (now_calls w + k * b))
                   [0..<length (submitted evs)]"
proof (induction starts arbitrary: w)
  case Nil
  show ?case by simp
next
  case (Cons i starts)
  let ?q = "stmt (random_calls w) (now_calls w)"
  let ?w1 = "w\<lparr>random_calls := random_calls w + a, now_calls := now_calls w + b\<rparr>"
  show ?case
  proof (cases "db_error e (length (submitted (log w))) ?q")
    case (Some err)
    then have "pool_query e ?q ?w1 = (Inl err, ?w1\<lparr>log := log ?w1 @ [Issue ?q, Reject err]\<rparr>)"
      by (intro pool_query_Some) simp
    then show ?thesis
      by (intro exI [of _ "[Issue ?q, Reject err]"]) (simp add: assms)
  next
    case None
    define w2 where
      "w2 = ?w1\<lparr>db := apply_insert ?q (db ?w1), log := log ?w1 @ [Issue ?q, Resolve]\<rparr>"
    have pq: "pool_query e ?q ?w1 = (Inr (), w2)"
      unfolding w2_def by (intro pool_query_None) (simp add: None)
    have r: "run_jobs e (map build (i # starts)) w = run_jobs e (map build starts) w2"
      by (simp add: assms pq)
    have w2: "log w2 = log w @ [Issue ?q, Resolve]" "random_calls w2 = random_calls w + a"
      "now_calls w2 = now_calls w + b"
      by (simp_all add: w2_def)
    from Cons.IH [of w2] obtain evs where evs:
      "log (snd (run_jobs e (map build starts) w2)) = log w2 @ evs"
      "submitted evs = map (\<lambda>k. stmt (random_calls w2 + k * a) (now_calls w2 + k * b))
                         [0..<length (submitted evs)]"
      by blast
    let ?n = "length (submitted evs)"
    have "submitted ([Issue ?q, Resolve] @ evs)
        = ?q # map (\<lambda>k. stmt (random_calls w + a + k * a) (now_calls w + b + k * b)) [0..<?n]"
      using evs(2) by (simp add: w2)
    also have "\<dots> = map (\<lambda>k. stmt (random_calls w + k * a) (now_calls w + k * b)) [0..<Suc ?n]"
      by (simp add: map_upt_Suc add.assoc del: upt_Suc)
    finally have "submitted ([Issue ?q, Resolve] @ evs)
        = map (\<lambda>k. stmt (random_calls w + k * a) (now_calls w + k * b))
            [0..<length (submitted ([Issue ?q, Resolve] @ evs))]"
      by simp
    then show ?thesis
      unfolding r using evs(1)
      by (intro exI [of _ "[Issue ?q, Resolve] @ evs"]) (simp add: w2(1))
  qed
qed

lemma stage_counted:
  assumes "0 < bs"
    and "\<And>i w. build i w = (stmt (random_calls w) (now_calls w),
              w\<lparr>random_calls := random_calls w + a, now_calls := now_calls w + b\<rparr>)"
    and "batch_loop build e tot bs 0 w = Some (res, w')" "log w' = log w @ evs"
  shows "submitted evs
           = map (\<lambda>k. stmt (random_calls w + k * a) (now_calls w + k * b))
               [0..<length (submitted evs)]"
proof -
  have "w' = snd (run_jobs e (map build (batch_starts tot bs 0)) w)"
    using assms(3) by (simp add: batch_loop_unroll [OF assms(1)])
  with run_jobs_counted [where build = build and stmt = stmt and a = a and b = b and e = e
      and starts = "batch_starts tot bs 0" and w = w, OF assms(2)]
  show ?thesis using assms(4) by auto
qed


lemma orderitem_rows_concat:
  "concat (map st_values
      (map (\<lambda>k. orderitems_statement c e (rc + k * (4 * BATCH_SIZE c))) [0..<n]))
   = map (\<lambda>m. orderitem_row c e (rc + 4 * m)) [0..<n * BATCH_SIZE c]"
proof -
  define f where "f m = orderitem_row c e (rc + 4 * m)" for m
  have "concat (map st_values
      (map (\<lambda>k. orderitems_statement c e (rc + k * (4 * BATCH_SIZE c))) [0..<n]))
     = concat (map (\<lambda>k. map (\<lambda>j. f (k * BATCH_SIZE c + j)) [0..<BATCH_SIZE c]) [0..<n])"
    by (simp add: orderitems_statement_def comp_def f_def algebra_simps)
  also have "\<dots> = map f [0..<n * BATCH_SIZE c]" by (rule concat_blocks)
  finally show ?thesis by (simp add: f_def)
qed






lemma quiet_ok: "unit_random quiet" "clock_between quiet 1700000000000"
  by (simp_all add: unit_random_def clock_between_def quiet_def fl_half)



lemma orderitems_query_stmt:
  assumes "unit_random e" "0 < TOTAL_ORDERS c" "TOTAL_ORDERS c \<le> 2 ^ 53"
    "0 < TOTAL_PRODUCTS c" "TOTAL_PRODUCTS c \<le> 2 ^ 53"
  shows "log (snd (orderitems_query c e i w)) = log w \<and> db (snd (orderitems_query c e i w)) = db w
   \<and> (st_table (fst (orderitems_query c e i w)) = ''orderitems''
       \<and> list_all (orderitem_row_ok c) (st_values (fst (orderitems_query c e i w))))"
  using orderitems_query_ok [OF assms, of i w] by simp

lemma orderitems_query_rows:
  assumes "unit_random e" "0 < TOTAL_ORDERS c" "TOTAL_ORDERS c \<le> 2 ^ 53"
    "0 < TOTAL_PRODUCTS c" "TOTAL_PRODUCTS c \<le> 2 ^ 53"
  shows "log (snd (orderitems_query c e i w)) = log w \<and> db (snd (orderitems_query c e i w)) = db w
   \<and> full_batch c ''orderitems'' (fst (orderitems_query c e i w))
   \<and> list_all (orderitem_row_ok c) (st_values (fst (orderitems_query c e i w)))"
  using orderitems_query_ok [OF assms, of i w] by (simp add: full_batch_def)

lemma batch_loop_nothing: "batch_loop build e 0 bs 0 w = Some (Inr (), w)"
  by (subst batch_loop.simps) simp

lemma orderitems_submitted:
  assumes "0 < BATCH_SIZE c" "0 < TOTAL_PRODUCTS c" "TOTAL_PRODUCTS c \<le> 2 ^ 53"
    "TOTAL_ORDERS c \<le> 2 ^ 53" "unit_random e"
  shows "\<exists>res w' evs. insert_orderitems c e w = Some (res, w') \<and> log w' = log w @ evs
            \<and> submitted evs
                = map (\<lambda>k. orderitems_statement c e (random_calls w + k * (4 * BATCH_SIZE c)))
                    [0..<length (submitted evs)]
            \<and> (\<forall>q\<in>set (submitted evs). st_table q = ''orderitems''
                  \<and> list_all (orderitem_row_ok c) (st_values q))"
proof (cases "TOTAL_ORDERS c = 0")
  case True
  then have "insert_orderitems c e w = Some (Inr (), w)"
    by (simp add: insert_orderitems_def TOTAL_ITEMS_def batch_loop_nothing)
  then show ?thesis by simp
next
  case False
  then have o: "0 < TOTAL_ORDERS c" by simp
  from stage_all [where bs = "BATCH_SIZE c" and build = "orderitems_query c e" and e = e
      and tot = "TOTAL_ITEMS c" and w = w,
      OF assms(1) orderitems_query_stmt [OF assms(5) o assms(4,2,3)]]
  obtain res w' evs where s:
    "batch_loop (orderitems_query c e) e (TOTAL_ITEMS c) (BATCH_SIZE c) 0 w = Some (res, w')"
    "log w' = log w @ evs"
    "\<forall>q\<in>set (submitted evs). st_table q = ''orderitems''
        \<and> list_all (orderitem_row_ok c) (st_values q)"
    by blast
  from stage_counted [where stmt = "\<lambda>rc nc. orderitems_statement c e rc" and b = 0,
      OF assms(1) _ s(1,2)] s
  show ?thesis unfolding insert_orderitems_def by (simp add: orderitems_query_eq)
qed

lemma orderitems_inserted:
  assumes "0 < BATCH_SIZE c" "0 < TOTAL_PRODUCTS c" "TOTAL_PRODUCTS c \<le> 2 ^ 53"
    "TOTAL_ORDERS c \<le> 2 ^ 53" "unit_random e"
  shows "\<exists>w' new. insert_orderitems c (accepting e) w = Some (Inr (), w')
            \<and> db w' ''orderitems'' = db w ''orderitems'' @ new
            \<and> new = map (\<lambda>n. orderitem_row c e (random_calls w + 4 * n))
                      [0..<ceil_div (TOTAL_ORDERS c * 3) (BATCH_SIZE c) * BATCH_SIZE c]
            \<and> (BATCH_SIZE c dvd TOTAL_ORDERS c * 3 \<longrightarrow> length new = TOTAL_ORDERS c * 3)
            \<and> list_all (orderitem_row_ok c) new"
proof (cases "TOTAL_ORDERS c = 0")
  case True
  then have "insert_orderitems c (accepting e) w = Some (Inr (), w)"
    by (simp add: insert_orderitems_def TOTAL_ITEMS_def batch_loop_nothing)
  then show ?thesis using True assms(1) by (simp add: ceil_div_0)
next
  case False
  then have o: "0 < TOTAL_ORDERS c" by simp
  have "\<And>i w. log (snd (orderitems_query c (accepting e) i w)) = log w
       \<and> db (snd (orderitems_query c (accepting e) i w)) = db w
       \<and> full_batch c ''orderitems'' (fst (orderitems_query c (accepting e) i w))
       \<and> list_all (orderitem_row_ok c) (st_values (fst (orderitems_query c (accepting e) i w)))"
    using orderitems_query_rows [of "accepting e" c] assms o by simp
  from stage_rows [of c "orderitems_query c (accepting e)" "''orderitems''" "orderitem_row_ok c" e
      "TOTAL_ITEMS c" w, OF assms(1) this]
  obtain w' qs new where s:
    "batch_loop (orderitems_query c (accepting e)) (accepting e) (TOTAL_ITEMS c) (BATCH_SIZE c) 0 w
       = Some (Inr (), w')"
    "log w' = log w @ ok_events qs" "length qs = ceil_div (TOTAL_ITEMS c) (BATCH_SIZE c)"
    "db w' = (db w)(''orderitems'' := db w ''orderitems'' @ new)"
    "new = concat (map st_values qs)"
    "list_all (orderitem_row_ok c) new"
    by blast
  from stage_counted [where stmt = "\<lambda>rc nc. orderitems_statement c e rc" and b = 0,
      OF assms(1) _ s(1,2)]
  have "qs = map (\<lambda>k. orderitems_statement c e (random_calls w + k * (4 * BATCH_SIZE c)))
               [0..<length qs]"
    by (simp add: orderitems_query_eq)
  then have new: "new = map (\<lambda>n. orderitem_row c e (random_calls w + 4 * n))
                      [0..<length qs * BATCH_SIZE c]"
    unfolding s(5) using orderitem_rows_concat [of c e "random_calls w" "length qs"]
    by simp
  have "BATCH_SIZE c dvd TOTAL_ORDERS c * 3 \<longrightarrow> length new = TOTAL_ORDERS c * 3"
    using ceil_div_dvd [OF assms(1), of "TOTAL_ITEMS c"] new s(3)
    by (auto simp: TOTAL_ITEMS_def)
  then show ?thesis using s(1,3,4,6) new
    unfolding insert_orderitems_def by (auto simp: TOTAL_ITEMS_def)
qed

text \<open>
  Claim C5, as the code has it. Let every result of \<open>Math.random()\<close> be a double in
  \<open>[0, 1)\<close>, let there be at least one product, and at most \<open>2 ^ 53\<close> products and
  orders. The statements the order-items stage submits are \<open>orderitems_statement\<close> of
  the random numbers in the order in which they are taken: item number \<open>n\<close> of the
  stage is made of the random numbers \<open>4 * n\<close> to \<open>4 * n + 3\<close>. In every such row
  \<open>1 \<le> order_id \<le> TOTAL_ORDERS\<close>, \<open>1 \<le> product_id \<le> TOTAL_PRODUCTS\<close>,
  \<open>1 \<le> quantity \<le> 10\<close> and the price is between 0 and 500 (0 and 50000
  hundredths). When the backend executes every statement, the stage inserts
  \<open>ceil_div (TOTAL_ORDERS * 3) BATCH_SIZE * BATCH_SIZE\<close> items: exactly
  \<open>TOTAL_ORDERS * 3\<close> when the batch size divides that number, as the 1000 of the
  script divides its 7500000, and more otherwise.
\<close>

theorem orderitems_in_range:
  assumes "0 < BATCH_SIZE c" "0 < TOTAL_PRODUCTS c" "TOTAL_PRODUCTS c \<le> 2 ^ 53"
    "TOTAL_ORDERS c \<le> 2 ^ 53" "unit_random e"
  shows "(\<exists>res w' evs. insert_orderitems c e w = Some (res, w') \<and> log w' = log w @ evs
            \<and> submitted evs
                = map (\<lambda>k. orderitems_statement c e (random_calls w + k * (4 * BATCH_SIZE c)))
                    [0..<length (submitted evs)]
            \<and> (\<forall>q\<in>set (submitted evs). st_table q = ''orderitems''
                  \<and> list_all (orderitem_row_ok c) (st_values q)))
       \<and> (\<exists>w' new. insert_orderitems c (accepting e) w = Some (Inr (), w')
            \<and> db w' ''orderitems'' = db w ''orderitems'' @ new
            \<and> new = map (\<lambda>n. orderitem_row c e (random_calls w + 4 * n))
                      [0..<ceil_div (TOTAL_ORDERS c * 3) (BATCH_SIZE c) * BATCH_SIZE c]
            \<and> (BATCH_SIZE c dvd TOTAL_ORDERS c * 3 \<longrightarrow> length new = TOTAL_ORDERS c * 3)
            \<and> list_all (orderitem_row_ok c) new)"
  by (intro conjI orderitems_submitted [OF assms] orderitems_inserted [OF assms])

lemma quiet_orderitem:
  "orderitem_row reference quiet 0 = [SqlInt 1250001, SqlInt 5001, SqlInt 6, SqlFixed2 25000]"
  by (simp add: orderitem_row_def random_id_def random_price_def toFixed2_def quiet_def
        reference_def)

theorem orderitems_in_range_witness:
  "0 < BATCH_SIZE reference \<and> 0 < TOTAL_PRODUCTS reference
   \<and> TOTAL_PRODUCTS reference \<le> 2 ^ 53 \<and> TOTAL_ORDERS reference \<le> 2 ^ 53
   \<and> unit_random quiet \<and> BATCH_SIZE reference dvd TOTAL_ORDERS reference * 3
   \<and> (\<exists>w' new. insert_orderitems reference quiet empty_world = Some (Inr (), w')
         \<and> db w' ''orderitems'' = new \<and> length new = 7500000
         \<and> new ! 0 = [SqlInt 1250001, SqlInt 5001, SqlInt 6, SqlFixed2 25000]
         \<and> list_all (orderitem_row_ok reference) new)"
proof -
  have h: "0 < BATCH_SIZE reference" "0 < TOTAL_PRODUCTS reference"
    "TOTAL_PRODUCTS reference \<le> 2 ^ 53" "TOTAL_ORDERS reference \<le> 2 ^ 53"
    and d: "BATCH_SIZE reference dvd TOTAL_ORDERS reference * 3"
    and t: "TOTAL_ORDERS reference * 3 = 7500000"
    by (simp_all add: reference_def)
  define n where
    "n = ceil_div (TOTAL_ORDERS reference * 3) (BATCH_SIZE reference) * BATCH_SIZE reference"
  from orderitems_in_range [OF h quiet_ok(1), of empty_world, unfolded accepting_quiet,
      THEN conjunct2]
  obtain w' new where s: "insert_orderitems reference quiet empty_world = Some (Inr (), w')"
    "db w' ''orderitems'' = db empty_world ''orderitems'' @ new"
    "new = map (\<lambda>k. orderitem_row reference quiet (random_calls empty_world + 4 * k)) [0..<n]"
    "BATCH_SIZE reference dvd TOTAL_ORDERS reference * 3
       \<longrightarrow> length new = TOTAL_ORDERS reference * 3"
    "list_all (orderitem_row_ok reference) new"
    unfolding n_def by blast
  have len: "length new = 7500000" using s(4) d t by simp
  then have "0 < n" unfolding s(3) by simp
  then have "new ! 0 = orderitem_row reference quiet 0"
    unfolding s(3) by (simp add: empty_world_def)
  moreover have "db w' ''orderitems'' = new" using s(2) by (simp add: empty_world_def)
  ultimately show ?thesis using h d quiet_ok(1) s(1,5) len by (simp add: quiet_orderitem)
qed

lemma map_const_replicate: "\<forall>x\<in>set xs. f x = v \<Longrightarrow> map f xs = replicate (length xs) v"
  by (induction xs) simp_all

text \<open>
  Three orders in batches of two: nine items are asked for, five statements of two
  rows each are submitted and ten items are in the table afterwards.
\<close>

theorem nine_items_in_batches_of_two:
  "TOTAL_ORDERS small * 3 = 9
   \<and> outcome (insert_orderitems small quiet empty_world) = Some (Inr ())
   \<and> batch_sizes (insert_orderitems small quiet empty_world) = Some [2, 2, 2, 2, 2]
   \<and> map_option length (table_after ''orderitems'' (insert_orderitems small quiet empty_world))
       = Some 10
   \<and> map_option length (table_after ''orderitems'' (insert_orderitems small quiet empty_world))
       \<noteq> Some (TOTAL_ORDERS small * 3)"
proof -
  have bs: "0 < BATCH_SIZE small" by (simp add: small_fields)
  from stage_rows [of small "orderitems_query small quiet" "''orderitems''" "\<lambda>r. True" quiet
      "TOTAL_ITEMS small" empty_world, OF bs orderitems_query_facts]
  obtain w' qs new where s:
    "insert_orderitems small quiet empty_world = Some (Inr (), w')"
    "log w' = log empty_world @ ok_events qs"
    "length qs = ceil_div (TOTAL_ITEMS small) (BATCH_SIZE small)"
    "\<forall>q\<in>set qs. length (st_values q) = BATCH_SIZE small"
    "db w' = (db empty_world)(''orderitems'' := db empty_world ''orderitems'' @ new)"
    "length new = ceil_div (TOTAL_ITEMS small) (BATCH_SIZE small) * BATCH_SIZE small"
    unfolding insert_orderitems_def accepting_quiet by blast
  have len: "length qs = 5" "length new = 10"
    using s(3,6) by (simp_all add: small_fields small_batches)
  have "map (\<lambda>q. length (st_values q)) qs = replicate (length qs) (BATCH_SIZE small)"
    using s(4) by (rule map_const_replicate)
  then have sizes: "map (\<lambda>q. length (st_values q)) (submitted (log w')) = [2, 2, 2, 2, 2]"
    by (simp add: s(2) len small_fields empty_world_def numeral_eq_Suc)
  have tab: "db w' ''orderitems'' = new" by (simp add: s(5) empty_world_def)
  show ?thesis
    by (simp add: s(1) outcome_def batch_sizes_def table_after_def sizes tab len small_fields)
qed

subsection \<open>Order and failure\<close>

lemma in_flight_ok_events:
  assumes "\<And>m. 0 \<le> in_flight (take m rest) \<and> in_flight (take m rest) \<le> 1"
  shows "0 \<le> in_flight (take n (ok_events qs @ rest))
       \<and> in_flight (take n (ok_events qs @ rest)) \<le> 1"
proof (induction qs arbitrary: n)
  case Nil
  show ?case using assms by simp
next
  case (Cons q qs)
  show ?case
  proof (cases n)
    case 0
    then show ?thesis by simp
  next
    case (Suc m)
    show ?thesis
    proof (cases m)
      case 0
      then show ?thesis using Suc by simp
    next
      case (Suc k)
      then show ?thesis using \<open>n = Suc m\<close> Cons.IH [of k] by simp
    qed
  qed
qed

lemma in_flight_take_end:
  "0 \<le> in_flight (take m [PoolEnd]) \<and> in_flight (take m [PoolEnd]) \<le> 1"
  by (cases m) simp_all

lemma in_flight_take_reject:
  "0 \<le> in_flight (take m [Issue q, Reject err]) \<and> in_flight (take m [Issue q, Reject err]) \<le> 1"
proof (cases m)
  case 0
  then show ?thesis by simp
next
  case (Suc k)
  then show ?thesis by (cases k) simp_all
qed

lemma full_batches_tables:
  "list_all2 (full_batch c) ts qs \<Longrightarrow> map st_table qs = ts"
  by (induction ts qs rule: list_all2_induct) (simp_all add: full_batch_def)

lemma no_reject_ok_events [simp]: "Reject err \<notin> set (ok_events qs)"
  by (induction qs) simp_all

lemma no_end_ok_events [simp]: "PoolEnd \<notin> set (ok_events qs)"
  by (induction qs) simp_all

lemma count_end_ok_events [simp]: "count_list (ok_events qs) PoolEnd = 0"
  by (induction qs) simp_all

lemma count_list_append_end [simp]: "count_list (xs @ ys) x = count_list xs x + count_list ys x"
  by (induction xs) simp_all

text \<open>
  Claim C6. In every run the statements go out in the order of the stages: the tables
  of the statements submitted are a beginning of \<open>plan\<close> (the users batches, then the
  products batches, then the orders batches, then the order-items batches), all of it
  when the run returns normally, and then \<open>pool.end()\<close> is the last event. A
  statement is settled before the next event: at every point of the log at most one
  statement is in flight.
\<close>

theorem run_is_sequential:
  assumes "0 < BATCH_SIZE c"
  shows "\<exists>res w' evs qs. run c e w = Some (res, w') \<and> log w' = log w @ evs
           \<and> (\<forall>n. 0 \<le> in_flight (take n evs) \<and> in_flight (take n evs) \<le> 1)
           \<and> map st_table (submitted evs) = take (length (submitted evs)) (plan c)
           \<and> (res = Inr () \<and> evs = ok_events qs @ [PoolEnd] \<and> map st_table qs = plan c
              \<or> (\<exists>q err. res = Inl err \<and> evs = ok_events qs @ [Issue q, Reject err]))"
proof -
  from run_shape [OF assms, of e w] obtain res w' qs where s:
    "run c e w = Some (res, w')"
    "list_all2 (full_batch c) (take (length qs) (plan c)) qs"
    "res = Inr () \<and> length qs = length (plan c) \<and> log w' = log w @ ok_events qs @ [PoolEnd]
       \<or> (\<exists>q err. res = Inl err \<and> length qs < length (plan c)
              \<and> full_batch c (plan c ! length qs) q
              \<and> db_error e (length (submitted (log w)) + length qs) q = Some err
              \<and> log w' = log w @ ok_events qs @ [Issue q, Reject err])"
    by blast
  have tabs: "map st_table qs = take (length qs) (plan c)"
    using full_batches_tables [OF s(2)] .
  from s(3) show ?thesis
  proof
    assume ok: "res = Inr () \<and> length qs = length (plan c)
       \<and> log w' = log w @ ok_events qs @ [PoolEnd]"
    let ?evs = "ok_events qs @ [PoolEnd]"
    have "\<forall>n. 0 \<le> in_flight (take n ?evs) \<and> in_flight (take n ?evs) \<le> 1"
      using in_flight_ok_events [OF in_flight_take_end] by blast
    moreover have "map st_table (submitted ?evs) = take (length (submitted ?evs)) (plan c)"
      using tabs by simp
    moreover have "map st_table qs = plan c" using tabs ok by simp
    ultimately show ?thesis using s(1) ok
      by (intro exI [of _ res] exI [of _ w'] exI [of _ ?evs] exI [of _ qs]) simp
  next
    assume "\<exists>q err. res = Inl err \<and> length qs < length (plan c)
              \<and> full_batch c (plan c ! length qs) q
              \<and> db_error e (length (submitted (log w)) + length qs) q = Some err
              \<and> log w' = log w @ ok_events qs @ [Issue q, Reject err]"
    then obtain q err where f: "res = Inl err" "length qs < length (plan c)"
      "full_batch c (plan c ! length qs) q"
      "log w' = log w @ ok_events qs @ [Issue q, Reject err]"
      by blast
    let ?evs = "ok_events qs @ [Issue q, Reject err]"
    have "\<forall>n. 0 \<le> in_flight (take n ?evs) \<and> in_flight (take n ?evs) \<le> 1"
      using in_flight_ok_events [OF in_flight_take_reject] by blast
    moreover have "map st_table (submitted ?evs) = take (length (submitted ?evs)) (plan c)"
      using tabs f(2,3) by (simp add: take_Suc_conv_app_nth full_batch_def)
    ultimately show ?thesis using s(1) f(1,4)
      by (intro exI [of _ res] exI [of _ w'] exI [of _ ?evs] exI [of _ qs]) simp
  qed
qed

lemma small_plan: "length (plan small) = 12"
  by (simp add: plan_def small_fields small_batches)

theorem run_is_sequential_witness:
  "0 < BATCH_SIZE small
   \<and> (\<exists>w' qs. run small quiet empty_world = Some (Inr (), w')
         \<and> log w' = ok_events qs @ [PoolEnd]
         \<and> map st_table qs
             = [''users'', ''users'', ''users'', ''products'', ''products'', ''orders'', ''orders'',
                ''orderitems'', ''orderitems'', ''orderitems'', ''orderitems'', ''orderitems''])"
proof -
  have bs: "0 < BATCH_SIZE small" by (simp add: small_fields)
  have p: "plan small
      = [''users'', ''users'', ''users'', ''products'', ''products'', ''orders'', ''orders'',
         ''orderitems'', ''orderitems'', ''orderitems'', ''orderitems'', ''orderitems'']"
    unfolding plan_def small_fields small_batches by (simp add: numeral_eq_Suc)
  from run_accepting [OF bs, of quiet empty_world] obtain w0 where
    ok: "run small quiet empty_world = Some (Inr (), w0)"
    unfolding accepting_quiet by blast
  from run_is_sequential [OF bs, of quiet empty_world] obtain res w' evs qs where s:
    "run small quiet empty_world = Some (res, w')" "log w' = log empty_world @ evs"
    "res = Inr () \<and> evs = ok_events qs @ [PoolEnd] \<and> map st_table qs = plan small
       \<or> (\<exists>q err. res = Inl err \<and> evs = ok_events qs @ [Issue q, Reject err])"
    by blast
  have "res = Inr ()" using ok s(1) by simp
  then have "log w' = ok_events qs @ [PoolEnd]" "map st_table qs = plan small"
    using s(2,3) by (auto simp: empty_world_def)
  then show ?thesis using bs s(1) \<open>res = Inr ()\<close> unfolding p
    by (intro conjI exI [of _ w'] exI [of _ qs]) simp_all
qed

text \<open>
  Claim C7. The statements the backend executes are issued and resolved one after
  the other. The first statement it rejects is the last event of the run: no
  statement follows in this stage or a later one, the rejected statement is not issued
  again, \<open>pool.end()\<close> is not reached, and the result of \<open>run\<close> is the error of the
  backend.
\<close>

theorem failed_batch_ends_run:
  assumes "0 < BATCH_SIZE c"
  shows "\<exists>res w' evs qs. run c e w = Some (res, w') \<and> log w' = log w @ evs
           \<and> db w' = fold apply_insert qs (db w)
           \<and> (\<forall>k<length qs. db_error e (length (submitted (log w)) + k) (qs ! k) = None)
           \<and> (res = Inr () \<and> evs = ok_events qs @ [PoolEnd] \<and> length qs = length (plan c)
              \<or> (\<exists>q err. res = Inl err \<and> evs = ok_events qs @ [Issue q, Reject err]
                    \<and> db_error e (length (submitted (log w)) + length qs) q = Some err))
           \<and> (\<forall>err. Reject err \<in> set evs
                 \<longrightarrow> res = Inl err \<and> last evs = Reject err \<and> PoolEnd \<notin> set evs)"
proof -
  from run_shape [OF assms, of e w] obtain res w' qs where s:
    "run c e w = Some (res, w')"
    "\<forall>k<length qs. db_error e (length (submitted (log w)) + k) (qs ! k) = None"
    "db w' = fold apply_insert qs (db w)"
    "res = Inr () \<and> length qs = length (plan c) \<and> log w' = log w @ ok_events qs @ [PoolEnd]
       \<or> (\<exists>q err. res = Inl err \<and> length qs < length (plan c)
              \<and> full_batch c (plan c ! length qs) q
              \<and> db_error e (length (submitted (log w)) + length qs) q = Some err
              \<and> log w' = log w @ ok_events qs @ [Issue q, Reject err])"
    by blast
  from s(4) show ?thesis
  proof
    assume ok: "res = Inr () \<and> length qs = length (plan c)
       \<and> log w' = log w @ ok_events qs @ [PoolEnd]"
    then show ?thesis using s(1,2,3)
      by (intro exI [of _ res] exI [of _ w'] exI [of _ "ok_events qs @ [PoolEnd]"] exI [of _ qs])
         simp
  next
    assume "\<exists>q err. res = Inl err \<and> length qs < length (plan c)
              \<and> full_batch c (plan c ! length qs) q
              \<and> db_error e (length (submitted (log w)) + length qs) q = Some err
              \<and> log w' = log w @ ok_events qs @ [Issue q, Reject err]"
    then obtain q err where f: "res = Inl err"
      "db_error e (length (submitted (log w)) + length qs) q = Some err"
      "log w' = log w @ ok_events qs @ [Issue q, Reject err]"
      by blast
    then show ?thesis using s(1,2,3)
      by (intro exI [of _ res] exI [of _ w'] exI [of _ "ok_events qs @ [Issue q, Reject err]"]
            exI [of _ qs]) simp
  qed
qed

lemma flaky_error:
  "db_error flaky n q = Some err \<longleftrightarrow> n = 1 \<and> err = DbError ''connection lost''"
  by (auto simp: flaky_def quiet_def)

lemma flaky_accepts: "db_error flaky n q = None \<longleftrightarrow> n \<noteq> 1"
  by (simp add: flaky_def quiet_def)

lemma flaky_run:
  "\<exists>w' q1 q2. run small flaky empty_world = Some (Inl (DbError ''connection lost''), w')
      \<and> log w' = [Issue q1, Resolve, Issue q2, Reject (DbError ''connection lost'')]"
proof -
  have bs: "0 < BATCH_SIZE small" by (simp add: small_fields)
  from run_shape [OF bs, of flaky empty_world] obtain res w' qs where s:
    "run small flaky empty_world = Some (res, w')"
    "\<forall>k<length qs. db_error flaky (length (submitted (log empty_world)) + k) (qs ! k) = None"
    "res = Inr () \<and> length qs = length (plan small)
         \<and> log w' = log empty_world @ ok_events qs @ [PoolEnd]
       \<or> (\<exists>q err. res = Inl err \<and> length qs < length (plan small)
              \<and> full_batch small (plan small ! length qs) q
              \<and> db_error flaky (length (submitted (log empty_world)) + length qs) q = Some err
              \<and> log w' = log empty_world @ ok_events qs @ [Issue q, Reject err])"
    by blast
  have short: "length qs \<le> 1"
  proof (rule ccontr)
    assume "\<not> length qs \<le> 1"
    then have "1 < length qs" by simp
    with s(2) have "db_error flaky (length (submitted (log empty_world)) + 1) (qs ! 1) = None"
      by blast
    then show False by (simp add: flaky_accepts empty_world_def)
  qed
  with s(3) obtain q err where f: "res = Inl err"
    "db_error flaky (length (submitted (log empty_world)) + length qs) q = Some err"
    "log w' = log empty_world @ ok_events qs @ [Issue q, Reject err]"
    by (auto simp: small_plan)
  from f(2) have e: "length qs = 1" "err = DbError ''connection lost''"
    by (simp_all add: flaky_error empty_world_def)
  then obtain q1 where "qs = [q1]" by (cases qs) simp_all
  then show ?thesis using s(1) f(1,3) e(2)
    by (intro exI [of _ w'] exI [of _ q1] exI [of _ q]) (simp add: empty_world_def)
qed

theorem failed_batch_ends_run_witness:
  "0 < BATCH_SIZE small
   \<and> (\<exists>w' q1 q2. run small flaky empty_world = Some (Inl (DbError ''connection lost''), w')
         \<and> log w' = [Issue q1, Resolve, Issue q2, Reject (DbError ''connection lost'')]
         \<and> db w' = apply_insert q1 (db empty_world))"
proof -
  have bs: "0 < BATCH_SIZE small" by (simp add: small_fields)
  from failed_batch_ends_run [OF bs, of flaky empty_world] obtain res w' evs qs where s:
    "run small flaky empty_world = Some (res, w')" "log w' = log empty_world @ evs"
    "db w' = fold apply_insert qs (db empty_world)"
    "\<forall>k<length qs. db_error flaky (length (submitted (log empty_world)) + k) (qs ! k) = None"
    "res = Inr () \<and> evs = ok_events qs @ [PoolEnd] \<and> length qs = length (plan small)
       \<or> (\<exists>q err. res = Inl err \<and> evs = ok_events qs @ [Issue q, Reject err]
              \<and> db_error flaky (length (submitted (log empty_world)) + length qs) q = Some err)"
    by blast
  have short: "length qs \<le> 1"
  proof (rule ccontr)
    assume "\<not> length qs \<le> 1"
    then have "1 < length qs" by simp
    with s(4) have "db_error flaky (length (submitted (log empty_world)) + 1) (qs ! 1) = None"
      by blast
    then show False by (simp add: flaky_accepts empty_world_def)
  qed
  with s(5) obtain q err where f: "res = Inl err" "evs = ok_events qs @ [Issue q, Reject err]"
    "db_error flaky (length (submitted (log empty_world)) + length qs) q = Some err"
    by (auto simp: small_plan)
  from f(3) have e: "length qs = 1" "err = DbError ''connection lost''"
    by (simp_all add: flaky_error empty_world_def)
  then obtain q1 where "qs = [q1]" by (cases qs) simp_all
  then have "run small flaky empty_world = Some (Inl (DbError ''connection lost''), w')
         \<and> log w' = [Issue q1, Resolve, Issue q, Reject (DbError ''connection lost'')]
         \<and> db w' = apply_insert q1 (db empty_world)"
    using s(1,2,3) f(1,2) e(2) by (simp add: empty_world_def)
  then show ?thesis using bs by blast
qed

text \<open>
  Claim C8, as the code has it. \<open>pool.end()\<close> is called exactly once, as the last
  action of a run that returns normally. When a statement is rejected the error leaves
  \<open>run\<close> before \<open>pool.end()\<close> is reached: the pool is not released.
\<close>

theorem pool_end_only_after_success:
  assumes "0 < BATCH_SIZE c"
  shows "\<exists>res w' evs. run c e w = Some (res, w') \<and> log w' = log w @ evs
           \<and> (res = Inr () \<and> count_list evs PoolEnd = 1 \<and> last evs = PoolEnd
              \<or> (\<exists>err. res = Inl err \<and> count_list evs PoolEnd = 0))"
proof -
  from run_shape [OF assms, of e w] obtain res w' qs where s:
    "run c e w = Some (res, w')"
    "res = Inr () \<and> length qs = length (plan c) \<and> log w' = log w @ ok_events qs @ [PoolEnd]
       \<or> (\<exists>q err. res = Inl err \<and> length qs < length (plan c)
              \<and> full_batch c (plan c ! length qs) q
              \<and> db_error e (length (submitted (log w)) + length qs) q = Some err
              \<and> log w' = log w @ ok_events qs @ [Issue q, Reject err])"
    by blast
  from s(2) show ?thesis
  proof
    assume "res = Inr () \<and> length qs = length (plan c)
       \<and> log w' = log w @ ok_events qs @ [PoolEnd]"
    then show ?thesis using s(1)
      by (intro exI [of _ res] exI [of _ w'] exI [of _ "ok_events qs @ [PoolEnd]"]) simp
  next
    assume "\<exists>q err. res = Inl err \<and> length qs < length (plan c)
              \<and> full_batch c (plan c ! length qs) q
              \<and> db_error e (length (submitted (log w)) + length qs) q = Some err
              \<and> log w' = log w @ ok_events qs @ [Issue q, Reject err]"
    then obtain q err where "res = Inl err"
      "log w' = log w @ ok_events qs @ [Issue q, Reject err]"
      by blast
    then show ?thesis using s(1)
      by (intro exI [of _ res] exI [of _ w'] exI [of _ "ok_events qs @ [Issue q, Reject err]"])
         simp
  qed
qed

theorem pool_end_only_after_success_witness:
  "0 < BATCH_SIZE small
   \<and> (\<exists>w'. run small quiet empty_world = Some (Inr (), w')
         \<and> count_list (log w') PoolEnd = 1 \<and> last (log w') = PoolEnd)"
proof -
  have bs: "0 < BATCH_SIZE small" by (simp add: small_fields)
  from run_accepting [OF bs, of quiet empty_world] obtain w0 where
    ok: "run small quiet empty_world = Some (Inr (), w0)"
    unfolding accepting_quiet by blast
  from pool_end_only_after_success [OF bs, of quiet empty_world] obtain res w' evs where s:
    "run small quiet empty_world = Some (res, w')" "log w' = log empty_world @ evs"
    "res = Inr () \<and> count_list evs PoolEnd = 1 \<and> last evs = PoolEnd
       \<or> (\<exists>err. res = Inl err \<and> count_list evs PoolEnd = 0)"
    by blast
  have "res = Inr ()" using ok s(1) by simp
  then have "count_list (log w') PoolEnd = 1 \<and> last (log w') = PoolEnd"
    using s(2,3) by (auto simp: empty_world_def)
  then show ?thesis using bs s(1) \<open>res = Inr ()\<close> by blast
qed

text \<open>
  A run whose second statement is rejected: the error is the result of \<open>run\<close>, and
  \<open>pool.end()\<close> has not been called.
\<close>

theorem failed_run_skips_pool_end:
  "outcome (run small flaky empty_world) = Some (Inl (DbError ''connection lost''))
   \<and> pool_ends (run small flaky empty_world) = Some 0"
proof -
  from flaky_run obtain w' q1 q2 where
    "run small flaky empty_world = Some (Inl (DbError ''connection lost''), w')"
    "log w' = [Issue q1, Resolve, Issue q2, Reject (DbError ''connection lost'')]"
    by blast
  then show ?thesis by (simp add: outcome_def pool_ends_def)
qed

subsection \<open>A batch size of 0\<close>

lemma batch_loop_zero_aux:
  assumes "batch_loop build e tot bs i w = Some y"
  shows "\<not> (bs = 0 \<and> i < tot \<and> db_error e = (\<lambda>n q. None))"
proof (rule batch_loop.raw_induct
    [where P = "\<lambda>build e tot bs i w y. \<not> (bs = 0 \<and> i < tot \<and> db_error e = (\<lambda>n q. None))",
     OF _ assms], goal_cases)
  case (1 f build e tot bs i w y)
  show ?case
  proof
    assume a: "bs = 0 \<and> i < tot \<and> db_error e = (\<lambda>n q. None)"
    obtain q w1 where b: "build i w = (q, w1)" by (cases "build i w")
    have "\<exists>w2. pool_query e q w1 = (Inr (), w2)" using a by (simp add: pool_query_def)
    then obtain w2 where p: "pool_query e q w1 = (Inr (), w2)" by blast
    from 1(2) have "f build e tot bs (i + bs) w2 = Some y"
      using a by (simp add: b p)
    from 1(1) [OF this] show False using a by simp
  qed
qed

text \<open>
  A batch size of 0 with something to insert: on a backend that executes every
  statement the loop submits empty statements for ever.
\<close>

lemma batch_loop_zero_diverges:
  "i < tot \<Longrightarrow> batch_loop build (accepting e) tot 0 i w = None"
  using batch_loop_zero_aux [of build "accepting e" tot 0 i w]
  by (cases "batch_loop build (accepting e) tot 0 i w") simp_all

end
